theory Spec2Isabelle
  imports Main "HOL-Library.Word"
begin

unbundle bit_operations_syntax

section \<open>Array#pack and String#unpack (pack.c): data model\<close>

text \<open>
  The embedding follows pack.c function by function. Bytes are \<open>8 word\<close>; a Ruby string
  is the list of its bytes; the template is a \<open>string\<close>. The bit mask \<open>flags\<close> is
  only ever or-ed with, and tested against, single PACK_FLAG constants, so it is a set of
  flags. The cursors (\<open>ridx\<close>, \<open>srcidx\<close>, \<open>aidx\<close>, lengths) are mathematical
  integers: their machine overflow needs a buffer of 2^31 bytes and is not modelled, but
  the checks the code makes on them are kept. The template count is a C \<open>int\<close> that a
  short template can overflow, so its arithmetic wraps at 32 bits.
\<close>

type_synonym byte = "8 word"

datatype mrb_value =
    VNil
  | VFixnum int
  | VFloat "64 word"
  | VString "byte list"
  | VObject nat

datatype exc_class = E_ARGUMENT_ERROR | E_RANGE_ERROR | E_TYPE_ERROR | E_RUNTIME_ERROR

text \<open>
  \<open>Raise c msg\<close> is \<open>_raise(mrb, c, msg)\<close>; \<open>Raisef c fmt args\<close> is
  \<open>_raisef(mrb, c, fmt, args)\<close> (and the two \<open>snprintf\<close> messages of unpack_l and
  unpack_q), with the format string and its arguments kept apart.
\<close>

datatype error = Raise exc_class string | Raisef exc_class string "mrb_value list"

datatype pack_dir =
    PACK_DIR_CHAR | PACK_DIR_SHORT | PACK_DIR_LONG | PACK_DIR_QUAD | PACK_DIR_UTF8
  | PACK_DIR_DOUBLE | PACK_DIR_FLOAT | PACK_DIR_STR | PACK_DIR_HEX | PACK_DIR_BASE64
  | PACK_DIR_NUL | PACK_DIR_INVALID

datatype pack_type = PACK_TYPE_INTEGER | PACK_TYPE_FLOAT | PACK_TYPE_STRING | PACK_TYPE_NONE

datatype pack_flag =
    PACK_FLAG_s | PACK_FLAG_a | PACK_FLAG_Z | PACK_FLAG_SIGNED | PACK_FLAG_GT | PACK_FLAG_LT
  | PACK_FLAG_WIDTH | PACK_FLAG_LSB | PACK_FLAG_COUNT2 | PACK_FLAG_LITTLEENDIAN

text \<open>
  What pack.c takes from its build and from the rest of the interpreter: the byte
  order found by \<open>check_little_endian\<close>, \<open>sizeof(int)\<close>, whether MRB_INT64 is defined,
  the Fixnum range behind FIXABLE and POSFIXABLE, the numeric coercions \<open>_to_int\<close> and
  \<open>_to_flo\<close> on values that are not already of the wanted kind, the C conversions
  between \<open>double\<close> and \<open>float\<close> (floats are their IEEE bit patterns),
  \<open>_class_path(_obj_class(o))\<close>, and the error, if any, that \<open>_str_new\<close> raises for a
  negative length.
\<close>

record host =
  littleendian :: bool
  sizeof_int :: nat
  mrb_int64 :: bool
  mrb_int_min :: int
  mrb_int_max :: int
  coerce_int :: "mrb_value \<Rightarrow> error + int"
  coerce_flo :: "mrb_value \<Rightarrow> error + 64 word"
  double_to_float :: "64 word \<Rightarrow> 32 word"
  float_to_double :: "32 word \<Rightarrow> 64 word"
  class_path :: "mrb_value \<Rightarrow> mrb_value"
  str_new_negative :: "error option"

text \<open>
  A Fixnum holds an \<open>_int\<close>: the integer \<open>i\<close> of a value \<open>VFixnum i\<close> that the
  interpreter hands to pack.c is in the Fixnum range of the host, which is what FIXABLE
  tests. POSFIXABLE is the upper half of the test.
\<close>

definition FIXABLE :: "host \<Rightarrow> int \<Rightarrow> bool" where
  "FIXABLE h n = (mrb_int_min h \<le> n \<and> n \<le> mrb_int_max h)"

definition POSFIXABLE :: "host \<Rightarrow> int \<Rightarrow> bool" where
  "POSFIXABLE h n = (n \<le> mrb_int_max h)"

text \<open>
  Modelled from the spec: the numeric-coercion collaborator (value to integer, value to
  float, raising on failure), which is not part of pack.c. A Fixnum is its own integer
  and a Float its own float; every other case is the host's.
\<close>

definition to_int :: "host \<Rightarrow> mrb_value \<Rightarrow> error + int" where
  "to_int h v = (case v of VFixnum i \<Rightarrow> Inr i | _ \<Rightarrow> coerce_int h v)"

definition to_flo :: "host \<Rightarrow> mrb_value \<Rightarrow> error + 64 word" where
  "to_flo h v = (case v of VFloat f \<Rightarrow> Inr f | _ \<Rightarrow> coerce_flo h v)"

text \<open>\<open>_fixnum(o)\<close> and \<open>_float(o)\<close> read a field; pack calls them after the coercion.\<close>

fun mrb_fixnum :: "mrb_value \<Rightarrow> int" where
  "mrb_fixnum (VFixnum i) = i"
| "mrb_fixnum _ = 0"

fun mrb_float :: "mrb_value \<Rightarrow> 64 word" where
  "mrb_float (VFloat f) = f"
| "mrb_float _ = 0"

fun float_p :: "mrb_value \<Rightarrow> bool" where
  "float_p (VFloat f) = True"
| "float_p _ = False"

fun string_p :: "mrb_value \<Rightarrow> bool" where
  "string_p (VString s) = True"
| "string_p _ = False"

fun RSTRING :: "mrb_value \<Rightarrow> byte list" where
  "RSTRING (VString s) = s"
| "RSTRING _ = []"

section \<open>Helpers and the output buffer\<close>

definition hex2int :: "byte \<Rightarrow> 32 word" where
  "hex2int ch =
     (if 0x30 \<le> ch \<and> ch \<le> 0x39 then ucast (ch - 0x30)
      else if 0x41 \<le> ch \<and> ch \<le> 0x46 then 10 + ucast (ch - 0x41)
      else if 0x61 \<le> ch \<and> ch \<le> 0x66 then 10 + ucast (ch - 0x61)
      else 0)"

definition base64chars :: "byte list" where
  "base64chars = map of_char
     ''ABCDEFGHIJKLMNOPQRSTUVWXYZabcdefghijklmnopqrstuvwxyz0123456789+/''"

definition PACK_BASE64_IGNORE :: byte where "PACK_BASE64_IGNORE = 0xff"
definition PACK_BASE64_PADDING :: byte where "PACK_BASE64_PADDING = 0xfe"

text \<open>The table that \<open>make_base64_dec_tab\<close> fills, for an index below 128.\<close>

definition base64_dec_tab :: "byte \<Rightarrow> byte" where
  "base64_dec_tab c =
     (if 0x41 \<le> c \<and> c < 0x41 + 26 then c - 0x41
      else if 0x61 \<le> c \<and> c < 0x61 + 26 then c - 0x61 + 26
      else if 0x30 \<le> c \<and> c < 0x30 + 10 then c - 0x30 + 52
      else if c = 0x2b then 62
      else if c = 0x2f then 63
      else if c = 0x3d then PACK_BASE64_PADDING
      else PACK_BASE64_IGNORE)"

text \<open>
  The output string of pack is modelled by the bytes written so far, which are the bytes
  below the write cursor; a codec returns the bytes it stores from \<open>sidx\<close> on, and their
  number is its return value. \<open>str_len_ensure\<close> then only keeps its check: growing the
  capacity does not change those bytes.
\<close>

definition str_len_ensure :: "int \<Rightarrow> error + unit" where
  "str_len_ensure len =
     (if len < 0 then Inl (Raise E_RANGE_ERROR ''negative (or overflowed) integer'')
      else Inr ())"

section \<open>Integer codecs\<close>

definition pack_c :: "mrb_value \<Rightarrow> int \<Rightarrow> pack_flag set \<Rightarrow> error + byte list" where
  "pack_c v sidx flags =
     (case str_len_ensure (sidx + 1) of Inl e \<Rightarrow> Inl e
      | Inr u \<Rightarrow> Inr [word_of_int (mrb_fixnum v)])"

definition unpack_c ::
  "byte list \<Rightarrow> int \<Rightarrow> mrb_value list \<Rightarrow> pack_flag set \<Rightarrow> error + (int \<times> mrb_value list)" where
  "unpack_c src srclen ary flags =
     (if PACK_FLAG_SIGNED \<in> flags then Inr (1, ary @ [VFixnum (sint (src ! 0))])
      else Inr (1, ary @ [VFixnum (uint (src ! 0))]))"

definition pack_s :: "mrb_value \<Rightarrow> int \<Rightarrow> pack_flag set \<Rightarrow> error + byte list" where
  "pack_s v sidx flags =
     (case str_len_ensure (sidx + 2) of Inl e \<Rightarrow> Inl e
      | Inr u \<Rightarrow>
          (let n = (word_of_int (mrb_fixnum v) :: 16 word) in
           if PACK_FLAG_LITTLEENDIAN \<in> flags then Inr [ucast (n mod 256), ucast (n div 256)]
           else Inr [ucast (n div 256), ucast (n mod 256)]))"

definition unpack_s ::
  "byte list \<Rightarrow> int \<Rightarrow> mrb_value list \<Rightarrow> pack_flag set \<Rightarrow> error + (int \<times> mrb_value list)" where
  "unpack_s src srclen ary flags =
     (let n = (if PACK_FLAG_LITTLEENDIAN \<in> flags then uint (src ! 1) * 256 + uint (src ! 0)
               else uint (src ! 0) * 256 + uint (src ! 1));
          n' = (if PACK_FLAG_SIGNED \<in> flags \<and> n \<ge> 0x8000 then n - 0x10000 else n)
      in Inr (2, ary @ [VFixnum n']))"

definition pack_l :: "mrb_value \<Rightarrow> int \<Rightarrow> pack_flag set \<Rightarrow> error + byte list" where
  "pack_l v sidx flags =
     (case str_len_ensure (sidx + 4) of Inl e \<Rightarrow> Inl e
      | Inr u \<Rightarrow>
          (let n = (word_of_int (mrb_fixnum v) :: 32 word) in
           if PACK_FLAG_LITTLEENDIAN \<in> flags
           then Inr [ucast (n AND 0xff), ucast (drop_bit 8 n), ucast (drop_bit 16 n),
                     ucast (drop_bit 24 n)]
           else Inr [ucast (drop_bit 24 n), ucast (drop_bit 16 n), ucast (drop_bit 8 n),
                     ucast (n AND 0xff)]))"

definition unpack_l ::
  "host \<Rightarrow> byte list \<Rightarrow> int \<Rightarrow> mrb_value list \<Rightarrow> pack_flag set
     \<Rightarrow> error + (int \<times> mrb_value list)" where
  "unpack_l h src srclen ary flags =
     (let ul = (if PACK_FLAG_LITTLEENDIAN \<in> flags
                then (ucast (src ! 3) :: 32 word) * 256 * 256 * 256 + ucast (src ! 2) * 256 * 256
                     + ucast (src ! 1) * 256 + ucast (src ! 0)
                else (ucast (src ! 0) :: 32 word) * 256 * 256 * 256 + ucast (src ! 1) * 256 * 256
                     + ucast (src ! 2) * 256 + ucast (src ! 3))
      in if PACK_FLAG_SIGNED \<in> flags then
           (let sl = sint ul in
            if \<not> mrb_int64 h \<and> \<not> FIXABLE h sl
            then Inl (Raisef E_RANGE_ERROR ''cannot unpack to Fixnum: %ld'' [VFixnum sl])
            else Inr (4, ary @ [VFixnum sl]))
         else
           (if \<not> mrb_int64 h \<and> \<not> POSFIXABLE h (uint ul)
            then Inl (Raisef E_RANGE_ERROR ''cannot unpack to Fixnum: %lu'' [VFixnum (uint ul)])
            else Inr (4, ary @ [VFixnum (uint ul)])))"

definition pack_q :: "mrb_value \<Rightarrow> int \<Rightarrow> pack_flag set \<Rightarrow> error + byte list" where
  "pack_q v sidx flags =
     (case str_len_ensure (sidx + 8) of Inl e \<Rightarrow> Inl e
      | Inr u \<Rightarrow>
          (let n = (word_of_int (mrb_fixnum v) :: 64 word) in
           if PACK_FLAG_LITTLEENDIAN \<in> flags
           then Inr [ucast (n AND 0xff), ucast (drop_bit 8 n), ucast (drop_bit 16 n),
                     ucast (drop_bit 24 n), ucast (drop_bit 32 n), ucast (drop_bit 40 n),
                     ucast (drop_bit 48 n), ucast (drop_bit 56 n)]
           else Inr [ucast (drop_bit 56 n), ucast (drop_bit 48 n), ucast (drop_bit 40 n),
                     ucast (drop_bit 32 n), ucast (drop_bit 24 n), ucast (drop_bit 16 n),
                     ucast (drop_bit 8 n), ucast (n AND 0xff)]))"

text \<open>The loop of unpack_q: \<open>i\<close> more rounds of \<open>ull = ull * 256 + src[pos]; pos += step\<close>.\<close>

fun unpack_q_loop :: "byte list \<Rightarrow> nat \<Rightarrow> int \<Rightarrow> int \<Rightarrow> 64 word \<Rightarrow> 64 word" where
  "unpack_q_loop src 0 pos step ull = ull"
| "unpack_q_loop src (Suc i) pos step ull =
     unpack_q_loop src i (pos + step) step (ull * 256 + ucast (src ! nat pos))"

definition unpack_q ::
  "host \<Rightarrow> byte list \<Rightarrow> int \<Rightarrow> mrb_value list \<Rightarrow> pack_flag set
     \<Rightarrow> error + (int \<times> mrb_value list)" where
  "unpack_q h src srclen ary flags =
     (let ull = (if PACK_FLAG_LITTLEENDIAN \<in> flags then unpack_q_loop src 8 7 (- 1) 0
                 else unpack_q_loop src 8 0 1 0)
      in if PACK_FLAG_SIGNED \<in> flags then
           (let sll = sint ull in
            if \<not> FIXABLE h sll
            then Inl (Raisef E_RANGE_ERROR ''cannot unpack to Fixnum: %lld'' [VFixnum sll])
            else Inr (8, ary @ [VFixnum sll]))
         else
           (if \<not> POSFIXABLE h (uint ull)
            then Inl (Raisef E_RANGE_ERROR ''cannot unpack to Fixnum: %llu'' [VFixnum (uint ull)])
            else Inr (8, ary @ [VFixnum (uint ull)])))"

section \<open>Float codecs\<close>

text \<open>
  A C \<open>double\<close> or \<open>float\<close> is its IEEE bit pattern. \<open>le_bytes\<close> and \<open>le_word\<close> are
  the bytes of such a pattern from the least significant one on, and back. Under either
  setting of MRB_ENDIAN_BIG the codecs store the pattern least significant byte first
  when PACK_FLAG_LITTLEENDIAN is set and most significant byte first otherwise.
\<close>

definition le_bytes :: "'a::len word \<Rightarrow> nat \<Rightarrow> byte list" where
  "le_bytes w n = map (\<lambda>i. ucast (drop_bit (8 * i) w)) [0..<n]"

definition le_word :: "byte list \<Rightarrow> 'a::len word" where
  "le_word bs = foldr (\<lambda>b w. ucast b OR push_bit 8 w) bs 0"

definition pack_double :: "mrb_value \<Rightarrow> int \<Rightarrow> pack_flag set \<Rightarrow> error + byte list" where
  "pack_double v sidx flags =
     (case str_len_ensure (sidx + 8) of Inl e \<Rightarrow> Inl e
      | Inr u \<Rightarrow>
          (let d = mrb_float v in
           if PACK_FLAG_LITTLEENDIAN \<in> flags then Inr (le_bytes d 8)
           else Inr (rev (le_bytes d 8))))"

definition unpack_double ::
  "byte list \<Rightarrow> int \<Rightarrow> mrb_value list \<Rightarrow> pack_flag set \<Rightarrow> error + (int \<times> mrb_value list)" where
  "unpack_double src srclen ary flags =
     (let d = (if PACK_FLAG_LITTLEENDIAN \<in> flags then le_word (take 8 src)
               else le_word (rev (take 8 src)))
      in Inr (8, ary @ [VFloat d]))"

definition pack_float :: "host \<Rightarrow> mrb_value \<Rightarrow> int \<Rightarrow> pack_flag set \<Rightarrow> error + byte list" where
  "pack_float h v sidx flags =
     (case str_len_ensure (sidx + 4) of Inl e \<Rightarrow> Inl e
      | Inr u \<Rightarrow>
          (let f = double_to_float h (mrb_float v) in
           if PACK_FLAG_LITTLEENDIAN \<in> flags then Inr (le_bytes f 4)
           else Inr (rev (le_bytes f 4))))"

definition unpack_float ::
  "host \<Rightarrow> byte list \<Rightarrow> int \<Rightarrow> mrb_value list \<Rightarrow> pack_flag set
     \<Rightarrow> error + (int \<times> mrb_value list)" where
  "unpack_float h src srclen ary flags =
     (let f = (if PACK_FLAG_LITTLEENDIAN \<in> flags then le_word (take 4 src)
               else le_word (rev (take 4 src)))
      in Inr (4, ary @ [VFloat (float_to_double h f)]))"

section \<open>UTF-8 codec\<close>

definition pack_utf8 ::
  "mrb_value \<Rightarrow> int \<Rightarrow> int \<Rightarrow> pack_flag set \<Rightarrow> error + byte list" where
  "pack_utf8 v sidx count flags =
     (if float_p v then Inl (Raise E_RANGE_ERROR ''pack(U): value out of range'')
      else
        (let c = (word_of_int (mrb_fixnum v) :: 32 word) in
         if c < 0x80 then
           (case str_len_ensure (sidx + 1) of Inl e \<Rightarrow> Inl e
            | Inr u \<Rightarrow> Inr [ucast c])
         else if c < 0x800 then
           (case str_len_ensure (sidx + 2) of Inl e \<Rightarrow> Inl e
            | Inr u \<Rightarrow> Inr [ucast (0xC0 OR drop_bit 6 c), ucast (0x80 OR (c AND 0x3F))])
         else if c < 0x10000 then
           (case str_len_ensure (sidx + 3) of Inl e \<Rightarrow> Inl e
            | Inr u \<Rightarrow> Inr [ucast (0xE0 OR drop_bit 12 c),
                             ucast (0x80 OR (drop_bit 6 c AND 0x3F)),
                             ucast (0x80 OR (c AND 0x3F))])
         else if c < 0x200000 then
           (case str_len_ensure (sidx + 4) of Inl e \<Rightarrow> Inl e
            | Inr u \<Rightarrow> Inr [ucast (0xF0 OR drop_bit 18 c),
                             ucast (0x80 OR (drop_bit 12 c AND 0x3F)),
                             ucast (0x80 OR (drop_bit 6 c AND 0x3F)),
                             ucast (0x80 OR (c AND 0x3F))])
         else Inl (Raise E_RANGE_ERROR ''pack(U): value out of range'')))"

definition utf8_limits :: "int list" where
  "utf8_limits = [0x0, 0x80, 0x800, 0x10000, 0x200000, 0x4000000, 0x80000000]"

text \<open>
  The loop \<open>while (n--)\<close> of utf8_to_uv over the continuation bytes at \<open>p\<close>: each must
  be \<open>10xxxxxx\<close> and adds six bits to \<open>uv\<close>.
\<close>

fun utf8_cont :: "byte list \<Rightarrow> nat \<Rightarrow> int \<Rightarrow> error + int" where
  "utf8_cont p 0 uv = Inr uv"
| "utf8_cont p (Suc n) uv =
     (let c = p ! 0 in
      if c AND 0xc0 \<noteq> 0x80 then Inl (Raise E_ARGUMENT_ERROR ''malformed UTF-8 character'')
      else utf8_cont (drop 1 p) n (push_bit 6 uv OR uint (c AND 0x3f)))"

text \<open>utf8_to_uv returns the code point and the final \<open>*lenp\<close>.\<close>

definition utf8_to_uv :: "byte list \<Rightarrow> int \<Rightarrow> error + (int \<times> int)" where
  "utf8_to_uv p lenp =
     (let c = p ! 0 in
      if c AND 0x80 = 0 then Inr (uint c, 1)
      else if c AND 0x40 = 0 then Inl (Raise E_ARGUMENT_ERROR ''malformed UTF-8 character'')
      else
        (case (if c AND 0x20 = 0 then Some (2, uint (c AND 0x1f))
               else if c AND 0x10 = 0 then Some (3, uint (c AND 0x0f))
               else if c AND 0x08 = 0 then Some (4, uint (c AND 0x07))
               else if c AND 0x04 = 0 then Some (5, uint (c AND 0x03))
               else if c AND 0x02 = 0 then Some (6, uint (c AND 0x01))
               else None) of
           None \<Rightarrow> Inl (Raise E_ARGUMENT_ERROR ''malformed UTF-8 character'')
         | Some (n, uv0) \<Rightarrow>
             if int n > lenp then
               Inl (Raisef E_ARGUMENT_ERROR
                      ''malformed UTF-8 character (expected %S bytes, given %S bytes)''
                      [VFixnum (int n), VFixnum lenp])
             else
               (case utf8_cont (drop 1 p) (n - 1) uv0 of Inl e \<Rightarrow> Inl e
                | Inr uv \<Rightarrow>
                    if uv < utf8_limits ! (n - 1)
                    then Inl (Raise E_ARGUMENT_ERROR ''redundant UTF-8 sequence'')
                    else Inr (uv, int n))))"

definition unpack_utf8 ::
  "byte list \<Rightarrow> int \<Rightarrow> mrb_value list \<Rightarrow> pack_flag set \<Rightarrow> error + (int \<times> mrb_value list)" where
  "unpack_utf8 src srclen ary flags =
     (if srclen = 0 then Inr (1, ary)
      else
        (case utf8_to_uv src srclen of Inl e \<Rightarrow> Inl e
         | Inr (uv, lenp) \<Rightarrow> Inr (lenp, ary @ [VFixnum uv])))"

section \<open>String codecs\<close>

definition pack_a ::
  "mrb_value \<Rightarrow> int \<Rightarrow> int \<Rightarrow> pack_flag set \<Rightarrow> error + byte list" where
  "pack_a src didx count flags =
     (let sptr = RSTRING src; slen = int (length sptr);
          pad = (if PACK_FLAG_a \<in> flags \<or> PACK_FLAG_Z \<in> flags then 0x00 else 0x20 :: byte)
      in if count = 0 then Inr []
         else
           (let (copylen, padlen) =
                  (if count = - 1 then (slen, if PACK_FLAG_Z \<in> flags then 1 else 0)
                   else if count < slen then (count, 0)
                   else (slen, count - slen))
            in case str_len_ensure (didx + copylen + padlen) of Inl e \<Rightarrow> Inl e
               | Inr u \<Rightarrow> Inr (take (nat copylen) sptr @ replicate (nat padlen) pad)))"

text \<open>\<open>isspace\<close> in the C locale; \<open>memchr\<close> gives the offset of the first hit.\<close>

definition isspace :: "byte \<Rightarrow> bool" where
  "isspace c = (c = 0x20 \<or> (0x09 \<le> c \<and> c \<le> 0x0d))"

definition memchr :: "byte list \<Rightarrow> byte \<Rightarrow> int \<Rightarrow> nat option" where
  "memchr s c n =
     (let pre = takeWhile (\<lambda>b. b \<noteq> c) (take (nat n) s)
      in if length pre < length (take (nat n) s) then Some (length pre) else None)"

text \<open>The trimming loop of unpack_a, on a positive \<open>copylen\<close>.\<close>

fun rtrim :: "byte list \<Rightarrow> nat \<Rightarrow> nat" where
  "rtrim sptr 0 = 0"
| "rtrim sptr (Suc n) =
     (if sptr ! n = 0 \<or> isspace (sptr ! n) then rtrim sptr n else Suc n)"

definition unpack_a ::
  "byte list \<Rightarrow> int \<Rightarrow> mrb_value list \<Rightarrow> int \<Rightarrow> pack_flag set
     \<Rightarrow> error + (int \<times> mrb_value list)" where
  "unpack_a sptr slen0 ary count flags =
     (let slen = (if count \<noteq> - 1 \<and> count < slen0 then count else slen0);
          (copylen, slen') =
             (if slen \<ge> 0 \<and> PACK_FLAG_Z \<in> flags then
                (case memchr sptr 0 slen of
                   Some cp \<Rightarrow> (int cp, if count = - 1 then int cp + 1 else slen)
                 | None \<Rightarrow> (slen, slen))
              else if PACK_FLAG_a \<notin> flags then
                (if slen > 0 then int (rtrim sptr (nat slen)) else slen, slen)
              else (slen, slen));
          copylen' = (if copylen < 0 then 0 else copylen)
      in Inr (slen', ary @ [VString (take (nat copylen') sptr)]))"

section \<open>Hex codec\<close>

function pack_h_loop :: "nat \<Rightarrow> nat \<Rightarrow> byte list \<Rightarrow> int \<Rightarrow> int \<Rightarrow> byte list" where
  "pack_h_loop ashift bshift sptr slen count =
     (if count > 0 then
        (let a = (if slen > 0 then hex2int (sptr ! 0) else 0);
             sptr1 = (if slen > 0 then drop 1 sptr else sptr);
             slen1 = (if slen > 0 then slen - 1 else slen);
             b = (if slen1 > 0 then hex2int (sptr1 ! 0) else 0);
             sptr2 = (if slen1 > 0 then drop 1 sptr1 else sptr1);
             slen2 = (if slen1 > 0 then slen1 - 1 else slen1)
         in ucast (push_bit ashift a + push_bit bshift b)
            # pack_h_loop ashift bshift sptr2 slen2 (count - 2))
      else [])"
  by pat_completeness auto
termination
  by (relation "measure (\<lambda>(ashift, bshift, sptr, slen, count). nat count)") auto

declare pack_h_loop.simps [simp del]

definition pack_h ::
  "mrb_value \<Rightarrow> int \<Rightarrow> int \<Rightarrow> pack_flag set \<Rightarrow> error + byte list" where
  "pack_h src didx count0 flags =
     (let sptr = RSTRING src; slen0 = int (length sptr);
          (ashift, bshift) = (if PACK_FLAG_LSB \<in> flags then (0, 4) else (4, 0));
          (count, slen) = (if count0 = - 1 then (slen0, slen0)
                           else if slen0 > count0 then (count0, count0)
                           else (count0, slen0))
      in case str_len_ensure (didx + count) of Inl e \<Rightarrow> Inl e
         | Inr u \<Rightarrow> Inr (pack_h_loop ashift bshift sptr slen count))"

definition hexadecimal :: "byte list" where
  "hexadecimal = map of_char ''0123456789abcdef''"

text \<open>
  The loop of unpack_h returns the source bytes it has not read and the digits written.
\<close>

function unpack_h_loop ::
  "nat \<Rightarrow> nat \<Rightarrow> byte list \<Rightarrow> int \<Rightarrow> int \<Rightarrow> byte list \<Rightarrow> int \<times> byte list" where
  "unpack_h_loop ashift bshift sptr slen count dst =
     (if slen > 0 \<and> count > 0 then
        (let a = drop_bit ashift (sptr ! 0) AND 0x0f;
             b = drop_bit bshift (sptr ! 0) AND 0x0f;
             dst1 = dst @ [hexadecimal ! unat a];
             count1 = count - 1
         in if count1 > 0
            then unpack_h_loop ashift bshift (drop 1 sptr) (slen - 1) (count1 - 1)
                   (dst1 @ [hexadecimal ! unat b])
            else unpack_h_loop ashift bshift (drop 1 sptr) (slen - 1) count1 dst1)
      else (slen, dst))"
  by pat_completeness auto
termination
  by (relation "measure (\<lambda>(ashift, bshift, sptr, slen, count, dst). nat slen)") auto

declare unpack_h_loop.simps [simp del]

text \<open>
  With \<open>H*\<close> on a cursor one past the end, \<open>count\<close> is negative when \<open>_str_new\<close> gets
  it. \<open>_str_new\<close> is not part of pack.c: \<open>str_new_negative\<close> is the error it raises
  then, if any.
\<close>

definition unpack_h ::
  "host \<Rightarrow> byte list \<Rightarrow> int \<Rightarrow> mrb_value list \<Rightarrow> int \<Rightarrow> pack_flag set
     \<Rightarrow> error + (int \<times> mrb_value list)" where
  "unpack_h h sptr slen ary count0 flags =
     (let (ashift, bshift) = (if PACK_FLAG_LSB \<in> flags then (0, 4) else (4, 0));
          count = (if count0 = - 1 then slen * 2 else count0)
      in case (if count < 0 then str_new_negative h else None) of
           Some e \<Rightarrow> Inl e
         | None \<Rightarrow>
             (let (slen', dst) = unpack_h_loop ashift bshift sptr slen count []
              in Inr (slen - slen', ary @ [VString dst])))"

section \<open>Base64 codec\<close>

definition b64 :: "32 word \<Rightarrow> nat \<Rightarrow> byte" where
  "b64 l k = base64chars ! unat (drop_bit k l AND 0x3f)"

text \<open>
  The \<open>for\<close> loop of pack_m over whole 3-byte groups; it returns the source not yet
  read, \<open>column\<close> and the output, all as they are when the loop ends.
\<close>

function pack_m_loop :: "int \<Rightarrow> byte list \<Rightarrow> int \<Rightarrow> byte list \<Rightarrow> byte list \<times> int \<times> byte list" where
  "pack_m_loop count srcptr column dst =
     (if length srcptr \<ge> 3 then
        (let l = push_bit 16 (ucast (srcptr ! 0)) + push_bit 8 (ucast (srcptr ! 1))
                 + ucast (srcptr ! 2);
             dst1 = dst @ [b64 l 18, b64 l 12, b64 l 6, b64 l 0]
         in if column = count
            then pack_m_loop count (drop 3 srcptr) (0 + 3) (dst1 @ [0x0a])
            else pack_m_loop count (drop 3 srcptr) (column + 3) dst1)
      else (srcptr, column, dst))"
  by pat_completeness auto
termination
  by (relation "measure (\<lambda>(count, srcptr, column, dst). length srcptr)") auto

declare pack_m_loop.simps [simp del]

definition pack_m ::
  "mrb_value \<Rightarrow> int \<Rightarrow> int \<Rightarrow> pack_flag set \<Rightarrow> error + byte list" where
  "pack_m src didx count0 flags =
     (let srcptr = RSTRING src; srclen = int (length srcptr)
      in if srclen = 0 then Inr []
         else
           (let count = (if count0 \<noteq> 0 \<and> count0 < 3 then 45
                         else if count0 \<ge> 3 then count0 - count0 mod 3
                         else count0);
                dstlen = (srclen + 2) div 3 * 4
                         + (if count > 0
                            then srclen div count + (if srclen mod count = 0 then 0 else 1)
                            else 0)
            in case str_len_ensure (didx + dstlen) of Inl e \<Rightarrow> Inl e
               | Inr u \<Rightarrow>
                   (let (rest, column, dst) = pack_m_loop count srcptr 3 [];
                        (column1, dst1) =
                          (if length rest = 1 then
                             (let l = push_bit 16 (ucast (rest ! 0))
                              in (column + 3, dst @ [b64 l 18, b64 l 12, 0x3d, 0x3d]))
                           else if length rest = 2 then
                             (let l = push_bit 16 (ucast (rest ! 0))
                                      + push_bit 8 (ucast (rest ! 1))
                              in (column + 3, dst @ [b64 l 18, b64 l 12, b64 l 6, 0x3d]))
                           else (column, dst))
                    in if column1 > 0 \<and> count > 0 then Inr (dst1 @ [0x0a])
                       else Inr dst1)))"

text \<open>
  The \<open>do ... while\<close> of unpack_m that fetches one symbol: \<open>None\<close> is \<open>goto done\<close>
  (the source is used up), otherwise the symbol, the source after it and \<open>padding\<close>.
\<close>

fun unpack_m_getc :: "byte list \<Rightarrow> nat \<Rightarrow> (byte \<times> byte list \<times> nat) option" where
  "unpack_m_getc [] padding = None"
| "unpack_m_getc (c # sptr) padding =
     (if c \<ge> 128 then unpack_m_getc sptr padding
      else if base64_dec_tab c = PACK_BASE64_PADDING then Some (0, sptr, padding + 1)
      else if base64_dec_tab c = PACK_BASE64_IGNORE then unpack_m_getc sptr padding
      else Some (base64_dec_tab c, sptr, padding))"

text \<open>The \<open>for (i = 0; i < 4; i++)\<close> around it: \<open>i\<close> more symbols onto \<open>ch\<close>.\<close>

fun unpack_m_group ::
  "nat \<Rightarrow> byte list \<Rightarrow> nat \<Rightarrow> byte list \<Rightarrow> (byte list \<times> byte list \<times> nat) option" where
  "unpack_m_group 0 sptr padding ch = Some (ch, sptr, padding)"
| "unpack_m_group (Suc i) sptr padding ch =
     (case unpack_m_getc sptr padding of None \<Rightarrow> None
      | Some (c, sptr', padding') \<Rightarrow> unpack_m_group i sptr' padding' (ch @ [c]))"

lemma unpack_m_getc_length:
  "unpack_m_getc sptr padding = Some (c, sptr', padding') \<Longrightarrow> length sptr' < length sptr"
  by (induction sptr padding rule: unpack_m_getc.induct) (auto split: if_splits)

lemma unpack_m_group_length:
  "unpack_m_group i sptr padding ch = Some (ch', sptr', padding') \<Longrightarrow>
   length sptr' + i \<le> length sptr"
proof (induction i arbitrary: sptr padding ch)
  case 0
  then show ?case by simp
next
  case (Suc i)
  then show ?case
    by (fastforce split: option.splits dest: unpack_m_getc_length)
qed

text \<open>
  The outer \<open>while (slen >= 4)\<close>: it returns the source not read and the bytes decoded.
  At \<open>done\<close> nothing is left of the source.
\<close>

function unpack_m_loop :: "byte list \<Rightarrow> nat \<Rightarrow> byte list \<Rightarrow> byte list \<times> byte list" where
  "unpack_m_loop sptr padding dst =
     (if length sptr \<ge> 4 then
        (case unpack_m_group 4 sptr padding [] of
           None \<Rightarrow> ([], dst)
         | Some (ch, sptr', padding') \<Rightarrow>
             (let l = (push_bit 18 (ucast (ch ! 0)) + push_bit 12 (ucast (ch ! 1))
                       + push_bit 6 (ucast (ch ! 2)) + ucast (ch ! 3) :: 32 word)
              in if padding' = 0 then
                   unpack_m_loop sptr' padding'
                     (dst @ [ucast (drop_bit 16 l AND 0xff), ucast (drop_bit 8 l AND 0xff),
                             ucast (l AND 0xff)])
                 else if padding' = 1 then
                   (sptr', dst @ [ucast (drop_bit 16 l AND 0xff), ucast (drop_bit 8 l AND 0xff)])
                 else (sptr', dst @ [ucast (drop_bit 16 l AND 0xff)])))
      else (sptr, dst))"
  by pat_completeness auto
termination
proof (relation "measure (\<lambda>(sptr, padding, dst). length sptr)")
  show "wf (measure (\<lambda>(sptr, padding, dst). length sptr))" by simp
next
  fix sptr :: "byte list" and padding :: nat and dst :: "byte list"
    and x2 x1 y x1a x2a xa
  assume "unpack_m_group 4 sptr padding [] = Some x2" and "(x1, y) = x2" and "(x1a, x2a) = y"
  then have "unpack_m_group 4 sptr padding [] = Some (x1, x1a, x2a)" by simp
  from unpack_m_group_length [OF this]
  show "((x1a, x2a, dst @ [ucast (drop_bit 16 xa AND 0xff), ucast (drop_bit 8 xa AND 0xff),
            ucast (xa AND 0xff)]), sptr, padding, dst)
        \<in> measure (\<lambda>(sptr, padding, dst). length sptr)"
    by simp
qed

declare unpack_m_loop.simps [simp del]

definition unpack_m ::
  "byte list \<Rightarrow> int \<Rightarrow> mrb_value list \<Rightarrow> pack_flag set \<Rightarrow> error + (int \<times> mrb_value list)" where
  "unpack_m src slen ary flags =
     (let sptr0 = take (nat slen) src;
          (sptr, dst) = unpack_m_loop sptr0 0 []
      in Inr (int (length sptr0) - int (length sptr), ary @ [VString dst]))"

section \<open>Null padding\<close>

definition pack_x :: "int \<Rightarrow> int \<Rightarrow> pack_flag set \<Rightarrow> error + byte list" where
  "pack_x didx count flags =
     (if count < 0 then Inr []
      else
        (case str_len_ensure (didx + count) of Inl e \<Rightarrow> Inl e
         | Inr u \<Rightarrow> Inr (replicate (nat count) 0)))"

definition unpack_x :: "int \<Rightarrow> mrb_value list \<Rightarrow> int \<Rightarrow> pack_flag set \<Rightarrow> error + int" where
  "unpack_x slen ary count flags =
     (if count < 0 then Inr slen
      else if slen < count then Inl (Raise E_ARGUMENT_ERROR ''x outside of string'')
      else Inr count)"

section \<open>Template parser\<close>

record tmpl =
  tmpl_str :: string
  tmpl_idx :: nat

record directive =
  d_dir :: pack_dir
  d_type :: pack_type
  d_size :: int
  d_count :: int
  d_flags :: "pack_flag set"

definition has_tmpl :: "tmpl \<Rightarrow> bool" where
  "has_tmpl t = (tmpl_idx t < length (tmpl_str t))"

definition isdigit :: "char \<Rightarrow> bool" where
  "isdigit ch = (48 \<le> (of_char ch :: nat) \<and> (of_char ch :: nat) \<le> 57)"

text \<open>
  \<open>strchr(s, c)\<close> is not NULL when \<open>c\<close> occurs in \<open>s\<close>, and also when \<open>c\<close> is the
  terminating NUL of \<open>s\<close>.
\<close>

definition strchr :: "string \<Rightarrow> char \<Rightarrow> bool" where
  "strchr s c = (c \<in> set s \<or> c = CHR 0x00)"

text \<open>The result of an \<open>int\<close> operation of the count, wrapped to 32 bits.\<close>

definition int_wrap :: "int \<Rightarrow> int" where
  "int_wrap n = sint (word_of_int n :: 32 word)"

text \<open>
  The two \<open>goto alias\<close> of read_tmpl: \<open>I\<close> and \<open>i\<close> become the directive of
  \<open>sizeof(int)\<close> bytes, which is then looked up in the same \<open>switch\<close>.
\<close>

definition tmpl_alias :: "host \<Rightarrow> char \<Rightarrow> error + char" where
  "tmpl_alias h t =
     (if t = CHR ''I'' then
        (if sizeof_int h = 2 then Inr (CHR ''S'')
         else if sizeof_int h = 4 then Inr (CHR ''L'')
         else if sizeof_int h = 8 then Inr (CHR ''Q'')
         else Inl (Raisef E_RUNTIME_ERROR ''mruby-pack does not support sizeof(int) == %S''
                     [VFixnum (int (sizeof_int h))]))
      else if t = CHR ''i'' then
        (if sizeof_int h = 2 then Inr (CHR ''s'')
         else if sizeof_int h = 4 then Inr (CHR ''l'')
         else if sizeof_int h = 8 then Inr (CHR ''q'')
         else Inl (Raisef E_RUNTIME_ERROR ''mruby-pack does not support sizeof(int) == %S''
                     [VFixnum (int (sizeof_int h))]))
      else Inr t)"

text \<open>The \<open>switch (t)\<close>: directive kind, element type, size and the flags it sets.\<close>

definition tmpl_switch :: "char \<Rightarrow> pack_dir \<times> pack_type \<times> int \<times> pack_flag set" where
  "tmpl_switch t =
     (if t = CHR ''A'' then
        (PACK_DIR_STR, PACK_TYPE_STRING, 0, {PACK_FLAG_WIDTH, PACK_FLAG_COUNT2})
      else if t = CHR ''a'' then
        (PACK_DIR_STR, PACK_TYPE_STRING, 0, {PACK_FLAG_WIDTH, PACK_FLAG_COUNT2, PACK_FLAG_a})
      else if t = CHR ''C'' then (PACK_DIR_CHAR, PACK_TYPE_INTEGER, 1, {})
      else if t = CHR ''c'' then (PACK_DIR_CHAR, PACK_TYPE_INTEGER, 1, {PACK_FLAG_SIGNED})
      else if t = CHR ''D'' \<or> t = CHR ''d'' then
        (PACK_DIR_DOUBLE, PACK_TYPE_FLOAT, 8, {PACK_FLAG_SIGNED})
      else if t = CHR ''F'' \<or> t = CHR ''f'' then
        (PACK_DIR_FLOAT, PACK_TYPE_FLOAT, 4, {PACK_FLAG_SIGNED})
      else if t = CHR ''E'' then
        (PACK_DIR_DOUBLE, PACK_TYPE_FLOAT, 8, {PACK_FLAG_SIGNED, PACK_FLAG_LT})
      else if t = CHR ''e'' then
        (PACK_DIR_FLOAT, PACK_TYPE_FLOAT, 4, {PACK_FLAG_SIGNED, PACK_FLAG_LT})
      else if t = CHR ''G'' then
        (PACK_DIR_DOUBLE, PACK_TYPE_FLOAT, 8, {PACK_FLAG_SIGNED, PACK_FLAG_GT})
      else if t = CHR ''g'' then
        (PACK_DIR_FLOAT, PACK_TYPE_FLOAT, 4, {PACK_FLAG_SIGNED, PACK_FLAG_GT})
      else if t = CHR ''H'' then (PACK_DIR_HEX, PACK_TYPE_STRING, 0, {PACK_FLAG_COUNT2})
      else if t = CHR ''h'' then
        (PACK_DIR_HEX, PACK_TYPE_STRING, 0, {PACK_FLAG_COUNT2, PACK_FLAG_LSB})
      else if t = CHR ''L'' then (PACK_DIR_LONG, PACK_TYPE_INTEGER, 4, {})
      else if t = CHR ''l'' then (PACK_DIR_LONG, PACK_TYPE_INTEGER, 4, {PACK_FLAG_SIGNED})
      else if t = CHR ''m'' then (PACK_DIR_BASE64, PACK_TYPE_STRING, 0, {PACK_FLAG_WIDTH})
      else if t = CHR ''N'' then (PACK_DIR_LONG, PACK_TYPE_INTEGER, 4, {PACK_FLAG_GT})
      else if t = CHR ''n'' then (PACK_DIR_SHORT, PACK_TYPE_INTEGER, 2, {PACK_FLAG_GT})
      else if t = CHR ''Q'' then (PACK_DIR_QUAD, PACK_TYPE_INTEGER, 8, {})
      else if t = CHR ''q'' then (PACK_DIR_QUAD, PACK_TYPE_INTEGER, 8, {PACK_FLAG_SIGNED})
      else if t = CHR ''S'' then (PACK_DIR_SHORT, PACK_TYPE_INTEGER, 2, {})
      else if t = CHR ''s'' then (PACK_DIR_SHORT, PACK_TYPE_INTEGER, 2, {PACK_FLAG_SIGNED})
      else if t = CHR ''U'' then (PACK_DIR_UTF8, PACK_TYPE_INTEGER, 0, {})
      else if t = CHR ''V'' then (PACK_DIR_LONG, PACK_TYPE_INTEGER, 4, {PACK_FLAG_LT})
      else if t = CHR ''v'' then (PACK_DIR_SHORT, PACK_TYPE_INTEGER, 2, {PACK_FLAG_LT})
      else if t = CHR ''x'' then (PACK_DIR_NUL, PACK_TYPE_NONE, 0, {})
      else if t = CHR ''Z'' then
        (PACK_DIR_STR, PACK_TYPE_STRING, 0, {PACK_FLAG_WIDTH, PACK_FLAG_COUNT2, PACK_FLAG_Z})
      else (PACK_DIR_INVALID, PACK_TYPE_NONE, 0, {}))"

text \<open>The inner loop over the further digits of a count; \<open>idx\<close> is \<open>tmpl->idx\<close>.\<close>

function read_count :: "string \<Rightarrow> nat \<Rightarrow> int \<Rightarrow> nat \<Rightarrow> error + (int \<times> nat)" where
  "read_count tptr tlen count idx =
     (if idx < tlen \<and> isdigit (tptr ! idx) then
        (let count' = int_wrap (count * 10 + (int (of_char (tptr ! idx)) - 48))
         in if count' < 0 then Inl (Raise E_RUNTIME_ERROR ''too big template length'')
            else read_count tptr tlen count' (idx + 1))
      else Inr (count, idx))"
  by pat_completeness auto
termination
  by (relation "measure (\<lambda>(tptr, tlen, count, idx). tlen - idx)") auto

declare read_count.simps [simp del]

lemma read_count_idx: "read_count tptr tlen count idx = Inr (count', idx') \<Longrightarrow> idx \<le> idx'"
proof (induction tptr tlen count idx rule: read_count.induct)
  case (1 tptr tlen count idx)
  show ?case
  proof (cases "idx < tlen \<and> isdigit (tptr ! idx)")
    case True
    with "1.prems" "1.IH" show ?thesis
      by (subst (asm) read_count.simps) (fastforce simp: Let_def split: if_splits)
  next
    case False
    with "1.prems" show ?thesis
      by (subst (asm) read_count.simps) auto
  qed
qed

text \<open>
  The loop "read suffix [0-9*_!<>]": \<open>t\<close> is the directive character after the alias
  step, \<open>idx\<close> is \<open>tmpl->idx\<close> at the loop test. The format of the error is
  \<open>'%S' allowed only after types sSiIlLqQ\<close>.
\<close>

definition modifier_msg :: string where
  "modifier_msg = CHR 0x27 # ''%S'' @ CHR 0x27 # '' allowed only after types sSiIlLqQ''"

function read_suffix ::
  "string \<Rightarrow> nat \<Rightarrow> char \<Rightarrow> int \<Rightarrow> pack_flag set \<Rightarrow> nat
     \<Rightarrow> error + (int \<times> pack_flag set \<times> nat)" where
  "read_suffix tptr tlen t count flags idx =
     (if idx < tlen then
        (let ch = tptr ! idx in
         if isdigit ch then
           (case read_count tptr tlen (int (of_char ch) - 48) (idx + 1) of
              Inl e \<Rightarrow> Inl e
            | Inr (count', idx') \<Rightarrow> read_suffix tptr tlen t count' flags idx')
         else if ch = CHR ''*'' then read_suffix tptr tlen t (- 1) flags (idx + 1)
         else if ch = CHR ''_'' \<or> ch = CHR ''!'' \<or> ch = CHR ''<'' \<or> ch = CHR ''>'' then
           (if \<not> strchr ''sSiIlLqQ'' t then
              Inl (Raisef E_ARGUMENT_ERROR modifier_msg [VString [of_char ch]])
            else if ch = CHR ''_'' \<or> ch = CHR ''!'' then
              read_suffix tptr tlen t count (insert PACK_FLAG_s flags) (idx + 1)
            else if ch = CHR ''<'' then
              read_suffix tptr tlen t count (insert PACK_FLAG_LT flags) (idx + 1)
            else read_suffix tptr tlen t count (insert PACK_FLAG_GT flags) (idx + 1))
         else Inr (count, flags, idx + 1 - 1))
      else Inr (count, flags, idx))"
  by pat_completeness auto
termination
proof (relation "measure (\<lambda>(tptr, tlen, t, count, flags, idx). tlen - idx)", goal_cases)
  case 1
  show ?case by simp
next
  case (2 tptr tlen t count flags idx ch r x y)
  then have "read_count tptr tlen (int (of_char (tptr ! idx)) - 48) (idx + 1) = Inr (x, y)"
    by simp
  from read_count_idx [OF this] 2 show ?case by simp
qed auto

declare read_suffix.simps [simp del]

definition read_tmpl :: "host \<Rightarrow> tmpl \<Rightarrow> error + (directive \<times> tmpl)" where
  "read_tmpl h tmpl =
     (let tptr = tmpl_str tmpl; tlen = length tptr; t0 = tptr ! tmpl_idx tmpl
      in case tmpl_alias h t0 of Inl e \<Rightarrow> Inl e
         | Inr t \<Rightarrow>
             (let (dir, type, size, flags0) = tmpl_switch t
              in case read_suffix tptr tlen t 1 flags0 (tmpl_idx tmpl + 1) of Inl e \<Rightarrow> Inl e
                 | Inr (count, flags1, idx') \<Rightarrow>
                     (let flags =
                            (if PACK_FLAG_LT \<in> flags1
                                \<or> (PACK_FLAG_GT \<notin> flags1 \<and> littleendian h)
                             then insert PACK_FLAG_LITTLEENDIAN flags1 else flags1)
                      in Inr (\<lparr>d_dir = dir, d_type = type, d_size = size, d_count = count,
                                d_flags = flags\<rparr>,
                              tmpl\<lparr>tmpl_idx := idx'\<rparr>))))"

lemma read_suffix_idx:
  "read_suffix tptr tlen t count flags idx = Inr (count', flags', idx') \<Longrightarrow> idx \<le> idx'"
proof (induction tptr tlen t count flags idx rule: read_suffix.induct)
  case (1 tptr tlen t count flags idx)
  note IH = "1.IH" and prems = "1.prems"
  show ?case
  proof (cases "idx < tlen")
    case False
    with prems show ?thesis by (subst (asm) read_suffix.simps) simp
  next
    case lt: True
    let ?ch = "tptr ! idx"
    show ?thesis
    proof (cases "isdigit ?ch")
      case True
      with prems lt obtain c i where
        rc: "read_count tptr tlen (int (of_char ?ch) - 48) (idx + 1) = Inr (c, i)"
        and rs: "read_suffix tptr tlen t c flags i = Inr (count', flags', idx')"
        by (subst (asm) read_suffix.simps)
           (auto simp: Let_def split: sum.splits)
      from IH(1) [OF lt refl True rc refl rs]
      have "i \<le> idx'" .
      with read_count_idx [OF rc] show ?thesis by simp
    next
      case nd: False
      show ?thesis
      proof (cases "?ch = CHR ''*''")
        case True
        with prems lt nd have "read_suffix tptr tlen t (- 1) flags (idx + 1) = Inr (count', flags', idx')"
          by (subst (asm) read_suffix.simps) (simp add: Let_def)
        from IH(2) [OF lt refl nd True this] show ?thesis by simp
      next
        case ns: False
        show ?thesis
        proof (cases "?ch = CHR ''_'' \<or> ?ch = CHR ''!'' \<or> ?ch = CHR ''<'' \<or> ?ch = CHR ''>''")
          case False
          with prems lt nd ns show ?thesis
            by (subst (asm) read_suffix.simps) (simp add: Let_def)
        next
          case md: True
          from prems lt nd ns md have sc: "\<not> \<not> strchr ''sSiIlLqQ'' t"
            by (subst (asm) read_suffix.simps) (auto simp: Let_def split: if_splits)
          show ?thesis
          proof (cases "?ch = CHR ''_'' \<or> ?ch = CHR ''!''")
            case True
            with prems lt nd ns md sc
            have "read_suffix tptr tlen t count (insert PACK_FLAG_s flags) (idx + 1)
                    = Inr (count', flags', idx')"
              by (subst (asm) read_suffix.simps) (simp add: Let_def)
            from IH(3) [OF lt refl nd ns md sc True this]
            show ?thesis by simp
          next
            case nu: False
            show ?thesis
            proof (cases "?ch = CHR ''<''")
              case True
              with prems lt nd ns md sc nu
              have "read_suffix tptr tlen t count (insert PACK_FLAG_LT flags) (idx + 1)
                      = Inr (count', flags', idx')"
                by (subst (asm) read_suffix.simps) (simp add: Let_def)
              from IH(4) [OF lt refl nd ns md sc nu True this]
              show ?thesis by simp
            next
              case False
              with prems lt nd ns md sc nu
              have "read_suffix tptr tlen t count (insert PACK_FLAG_GT flags) (idx + 1)
                      = Inr (count', flags', idx')"
                by (subst (asm) read_suffix.simps) (simp add: Let_def)
              from IH(5) [OF lt refl nd ns md sc nu False this]
              show ?thesis by simp
            qed
          qed
        qed
      qed
    qed
  qed
qed

lemma read_tmpl_idx:
  "read_tmpl h t = Inr (d, t') \<Longrightarrow> tmpl_str t' = tmpl_str t \<and> tmpl_idx t < tmpl_idx t'"
  by (auto simp: read_tmpl_def Let_def split: sum.splits prod.splits dest: read_suffix_idx)

section \<open>Pack engine\<close>

text \<open>The coercion of the array entry to the element type of the directive.\<close>

definition pack_coerce :: "host \<Rightarrow> pack_type \<Rightarrow> mrb_value \<Rightarrow> error + mrb_value" where
  "pack_coerce h type v =
     (if type = PACK_TYPE_INTEGER then
        (case to_int h v of Inl e \<Rightarrow> Inl e | Inr i \<Rightarrow> Inr (VFixnum i))
      else if type = PACK_TYPE_FLOAT then
        (if \<not> float_p v then
           (case to_flo h v of Inl e \<Rightarrow> Inl e | Inr f \<Rightarrow> Inr (VFloat f))
         else Inr v)
      else if type = PACK_TYPE_STRING then
        (if \<not> string_p v then
           Inl (Raisef E_TYPE_ERROR (''can'' @ CHR 0x27 # ''t convert %S into String'')
                  [class_path h v])
         else Inr v)
      else Inr v)"

text \<open>The \<open>switch (dir)\<close> of _pack_pack: the bytes stored at \<open>ridx\<close>.\<close>

definition pack_switch ::
  "host \<Rightarrow> pack_dir \<Rightarrow> mrb_value \<Rightarrow> int \<Rightarrow> int \<Rightarrow> pack_flag set \<Rightarrow> error + byte list" where
  "pack_switch h dir v ridx count flags =
     (case dir of
        PACK_DIR_CHAR \<Rightarrow> pack_c v ridx flags
      | PACK_DIR_SHORT \<Rightarrow> pack_s v ridx flags
      | PACK_DIR_LONG \<Rightarrow> pack_l v ridx flags
      | PACK_DIR_QUAD \<Rightarrow> pack_q v ridx flags
      | PACK_DIR_BASE64 \<Rightarrow> pack_m v ridx count flags
      | PACK_DIR_HEX \<Rightarrow> pack_h v ridx count flags
      | PACK_DIR_STR \<Rightarrow> pack_a v ridx count flags
      | PACK_DIR_DOUBLE \<Rightarrow> pack_double v ridx flags
      | PACK_DIR_FLOAT \<Rightarrow> pack_float h v ridx flags
      | PACK_DIR_UTF8 \<Rightarrow> pack_utf8 v ridx count flags
      | _ \<Rightarrow> Inr [])"

text \<open>
  The loop \<open>for (; aidx < RARRAY_LEN(ary); aidx++)\<close> for one directive, from the
  directive's count, the array index, the write cursor and the bytes written so far to
  the array index, write cursor and bytes after the loop.
\<close>

function pack_for ::
  "host \<Rightarrow> mrb_value list \<Rightarrow> pack_dir \<Rightarrow> pack_type \<Rightarrow> pack_flag set \<Rightarrow> int \<Rightarrow> nat \<Rightarrow> int
     \<Rightarrow> byte list \<Rightarrow> error + (nat \<times> int \<times> byte list)" where
  "pack_for h ary dir type flags count aidx ridx result =
     (if aidx < length ary then
        (if count = 0 \<and> PACK_FLAG_WIDTH \<notin> flags then Inr (aidx, ridx, result)
         else
           (case pack_coerce h type (ary ! aidx) of Inl e \<Rightarrow> Inl e
            | Inr v \<Rightarrow>
                (case pack_switch h dir v ridx count flags of Inl e \<Rightarrow> Inl e
                 | Inr bs \<Rightarrow>
                     if dir = PACK_DIR_STR
                     then Inr (aidx + 1, ridx + int (length bs), result @ bs)
                     else pack_for h ary dir type flags (if count > 0 then count - 1 else count)
                            (aidx + 1) (ridx + int (length bs)) (result @ bs))))
      else Inr (aidx, ridx, result))"
  by pat_completeness auto
termination
  by (relation "measure (\<lambda>(h, ary, dir, type, flags, count, aidx, ridx, result).
                  length ary - aidx)") auto

declare pack_for.simps [simp del]

text \<open>
  The loop \<open>while (has_tmpl(&tmpl))\<close> of _pack_pack and the final \<open>_str_resize\<close> to
  \<open>ridx\<close> bytes.
\<close>

function pack_while ::
  "host \<Rightarrow> mrb_value list \<Rightarrow> tmpl \<Rightarrow> nat \<Rightarrow> int \<Rightarrow> byte list \<Rightarrow> error + byte list" where
  "pack_while h ary tmpl aidx ridx result =
     (if has_tmpl tmpl then
        (case read_tmpl h tmpl of Inl e \<Rightarrow> Inl e
         | Inr (d, tmpl') \<Rightarrow>
             if d_dir d = PACK_DIR_INVALID then pack_while h ary tmpl' aidx ridx result
             else if d_dir d = PACK_DIR_NUL then
               (case pack_x ridx (d_count d) (d_flags d) of Inl e \<Rightarrow> Inl e
                | Inr bs \<Rightarrow> pack_while h ary tmpl' aidx (ridx + int (length bs)) (result @ bs))
             else
               (case pack_for h ary (d_dir d) (d_type d) (d_flags d) (d_count d) aidx ridx result
                of Inl e \<Rightarrow> Inl e
                | Inr (aidx', ridx', result') \<Rightarrow>
                    if ridx' < 0
                    then Inl (Raise E_RANGE_ERROR ''negative (or overflowed) template size'')
                    else pack_while h ary tmpl' aidx' ridx' result'))
      else Inr (take (nat ridx) result))"
  by pat_completeness auto
termination
  by (relation "measure (\<lambda>(h, ary, tmpl, aidx, ridx, result).
                  length (tmpl_str tmpl) - tmpl_idx tmpl)")
     (auto simp: has_tmpl_def dest!: read_tmpl_idx)

declare pack_while.simps [simp del]

text \<open>\<open>ary.pack(template)\<close>: _pack_pack, with the template that prepare_tmpl fetches.\<close>

definition mrb_pack_pack :: "host \<Rightarrow> mrb_value list \<Rightarrow> string \<Rightarrow> error + byte list" where
  "mrb_pack_pack h ary template =
     pack_while h ary \<lparr>tmpl_str = template, tmpl_idx = 0\<rparr> 0 0 []"

section \<open>Unpack engine\<close>

text \<open>
  pack_unpack is two nested loops that a template such as \<open>m*\<close> keeps running for
  ever, so it is modelled by the steps between its loop tests. A state holds the
  template cursor, \<open>srcidx\<close>, the \<open>result\<close> array and, while control is in the loop
  \<open>while (count != 0)\<close>, the directive with its current \<open>count\<close>; \<open>u_loop = None\<close> is
  the test of the outer loop \<open>while (has_tmpl(&tmpl))\<close>.
\<close>

record unpack_state =
  u_tmpl :: tmpl
  u_srcidx :: int
  u_result :: "mrb_value list"
  u_loop :: "directive option"

text \<open>
  What pack_unpack returns: the array, or for unpack1 its element 0. With an empty array
  \<open>RARRAY_PTR(result)[0]\<close> reads past its end, which is \<open>Unpacked_Past_End\<close>.
\<close>

datatype unpacked = Unpacked_Array "mrb_value list" | Unpacked_Single mrb_value | Unpacked_Past_End

datatype unpack_step = Running unpack_state | Returned unpacked

definition unpack_return :: "bool \<Rightarrow> mrb_value list \<Rightarrow> unpacked" where
  "unpack_return single result =
     (if single then (if result = [] then Unpacked_Past_End else Unpacked_Single (result ! 0))
      else Unpacked_Array result)"

text \<open>
  The \<open>switch (dir)\<close> in the inner loop. \<open>sptr\<close> is the source from \<open>srcidx\<close> on; a
  codec gives the number of bytes it consumed and the array after its pushes.
\<close>

definition unpack_switch ::
  "host \<Rightarrow> pack_dir \<Rightarrow> byte list \<Rightarrow> int \<Rightarrow> mrb_value list \<Rightarrow> pack_flag set
     \<Rightarrow> error + (int \<times> mrb_value list)" where
  "unpack_switch h dir sptr slen result flags =
     (case dir of
        PACK_DIR_CHAR \<Rightarrow> unpack_c sptr slen result flags
      | PACK_DIR_SHORT \<Rightarrow> unpack_s sptr slen result flags
      | PACK_DIR_LONG \<Rightarrow> unpack_l h sptr slen result flags
      | PACK_DIR_QUAD \<Rightarrow> unpack_q h sptr slen result flags
      | PACK_DIR_BASE64 \<Rightarrow> unpack_m sptr slen result flags
      | PACK_DIR_FLOAT \<Rightarrow> unpack_float h sptr slen result flags
      | PACK_DIR_DOUBLE \<Rightarrow> unpack_double sptr slen result flags
      | PACK_DIR_UTF8 \<Rightarrow> unpack_utf8 sptr slen result flags
      | _ \<Rightarrow> Inl (Raise E_RUNTIME_ERROR (''mruby-pack'' @ CHR 0x27 # ''s bug'')))"

text \<open>After the inner loop: \<open>if (single) break;\<close> and the return, or the outer test.\<close>

definition unpack_leave :: "bool \<Rightarrow> unpack_state \<Rightarrow> unpack_step" where
  "unpack_leave single s =
     (if single then Returned (unpack_return single (u_result s))
      else Running (s\<lparr>u_loop := None\<rparr>))"

definition unpack_step :: "host \<Rightarrow> byte list \<Rightarrow> bool \<Rightarrow> unpack_state \<Rightarrow> error + unpack_step" where
  "unpack_step h str single s =
     (let srclen = int (length str); srcidx = u_srcidx s; result = u_result s;
          sptr = drop (nat srcidx) str
      in case u_loop s of
           None \<Rightarrow>
             if has_tmpl (u_tmpl s) then
               (case read_tmpl h (u_tmpl s) of Inl e \<Rightarrow> Inl e
                | Inr (d, tmpl') \<Rightarrow>
                    if d_dir d = PACK_DIR_INVALID then Inr (Running (s\<lparr>u_tmpl := tmpl'\<rparr>))
                    else if d_dir d = PACK_DIR_NUL then
                      (case unpack_x (srclen - srcidx) result (d_count d) (d_flags d) of
                         Inl e \<Rightarrow> Inl e
                       | Inr n \<Rightarrow> Inr (Running (s\<lparr>u_tmpl := tmpl', u_srcidx := srcidx + n\<rparr>)))
                    else if PACK_FLAG_COUNT2 \<in> d_flags d then
                      (case d_dir d of
                         PACK_DIR_HEX \<Rightarrow>
                           (case unpack_h h sptr (srclen - srcidx) result
                                   (d_count d) (d_flags d) of
                              Inl e \<Rightarrow> Inl e
                            | Inr (n, ary) \<Rightarrow>
                                Inr (Running (s\<lparr>u_tmpl := tmpl', u_srcidx := srcidx + n,
                                                 u_result := ary\<rparr>)))
                       | PACK_DIR_STR \<Rightarrow>
                           (case unpack_a sptr (srclen - srcidx) result (d_count d) (d_flags d) of
                              Inl e \<Rightarrow> Inl e
                            | Inr (n, ary) \<Rightarrow>
                                Inr (Running (s\<lparr>u_tmpl := tmpl', u_srcidx := srcidx + n,
                                                 u_result := ary\<rparr>)))
                       | _ \<Rightarrow> Inr (Running (s\<lparr>u_tmpl := tmpl'\<rparr>)))
                    else Inr (Running (s\<lparr>u_tmpl := tmpl', u_loop := Some d\<rparr>)))
             else Inr (Returned (unpack_return single result))
         | Some d \<Rightarrow>
             if d_count d \<noteq> 0 then
               (if srclen - srcidx < d_size d then
                  Inr (unpack_leave single
                         (s\<lparr>u_result := result @ replicate (nat (d_count d)) VNil\<rparr>))
                else
                  (case unpack_switch h (d_dir d) sptr (srclen - srcidx) result (d_flags d) of
                     Inl e \<Rightarrow> Inl e
                   | Inr (n, ary) \<Rightarrow>
                       Inr (Running (s\<lparr>u_srcidx := srcidx + n, u_result := ary,
                              u_loop := Some (d\<lparr>d_count :=
                                 (if d_count d > 0 then d_count d - 1 else d_count d)\<rparr>)\<rparr>))))
             else Inr (unpack_leave single s))"

text \<open>The state after at most \<open>n\<close> steps, or the value returned or raised within them.\<close>

fun unpack_steps ::
  "host \<Rightarrow> byte list \<Rightarrow> bool \<Rightarrow> nat \<Rightarrow> unpack_state \<Rightarrow> error + unpack_step" where
  "unpack_steps h str single 0 s = Inr (Running s)"
| "unpack_steps h str single (Suc n) s =
     (case unpack_step h str single s of
        Inl e \<Rightarrow> Inl e
      | Inr (Returned r) \<Rightarrow> Inr (Returned r)
      | Inr (Running s') \<Rightarrow> unpack_steps h str single n s')"

text \<open>The whole run: \<open>None\<close> when it never returns.\<close>

partial_function (option) unpack_run ::
  "host \<Rightarrow> byte list \<Rightarrow> bool \<Rightarrow> unpack_state \<Rightarrow> (error + unpacked) option" where
  "unpack_run h str single s =
     (case unpack_step h str single s of
        Inl e \<Rightarrow> Some (Inl e)
      | Inr (Returned r) \<Rightarrow> Some (Inr r)
      | Inr (Running s') \<Rightarrow> unpack_run h str single s')"

definition unpack_init :: "string \<Rightarrow> unpack_state" where
  "unpack_init template =
     \<lparr>u_tmpl = \<lparr>tmpl_str = template, tmpl_idx = 0\<rparr>, u_srcidx = 0, u_result = [],
      u_loop = None\<rparr>"

definition pack_unpack :: "host \<Rightarrow> byte list \<Rightarrow> string \<Rightarrow> bool \<Rightarrow> (error + unpacked) option" where
  "pack_unpack h str template single = unpack_run h str single (unpack_init template)"

definition mrb_pack_unpack :: "host \<Rightarrow> byte list \<Rightarrow> string \<Rightarrow> (error + unpacked) option" where
  "mrb_pack_unpack h str template = pack_unpack h str template False"

definition mrb_pack_unpack1 :: "host \<Rightarrow> byte list \<Rightarrow> string \<Rightarrow> (error + unpacked) option" where
  "mrb_pack_unpack1 h str template = pack_unpack h str template True"

text \<open>
  The C conversions \<open>(double)f\<close> and \<open>(float)d\<close> of an IEEE 754 build, on the bit
  patterns. A \<open>float\<close> has 1 sign bit, 8 exponent bits (bias 127) and 23 fraction bits,
  a \<open>double\<close> 1, 11 (bias 1023) and 52. Widening is exact: a subnormal \<open>float\<close> is
  normalised, which \<open>float_normalise\<close> does by shifting its fraction up to bit 23.
  Narrowing rounds to the nearest \<open>float\<close>, ties to even (the default rounding mode),
  goes to infinity above the largest \<open>float\<close> and through the subnormal range to zero
  below the smallest. A NaN stays a NaN: it keeps its sign and the top bits of its
  payload and is made quiet.
\<close>

fun float_normalise :: "nat \<Rightarrow> int \<Rightarrow> int \<Rightarrow> int \<times> int" where
  "float_normalise 0 e m = (e, m)"
| "float_normalise (Suc k) e m =
     (if 2 ^ 23 \<le> m then (e, m) else float_normalise k (e - 1) (2 * m))"

definition ieee_float_to_double :: "32 word \<Rightarrow> 64 word" where
  "ieee_float_to_double f =
     (let s = uint (drop_bit 31 f); e = uint (drop_bit 23 f AND 0xff); m = uint (f AND 0x7fffff);
          (e', m') =
            (if e = 255 then (2047, if m = 0 then 0 else m * 2 ^ 29 OR 2 ^ 51)
             else if e = 0 then
               (if m = 0 then (0, 0)
                else (let (e1, m1) = float_normalise 23 1 m
                      in (e1 + 896, (m1 - 2 ^ 23) * 2 ^ 29)))
             else (e + 896, m * 2 ^ 29))
      in word_of_int (s * 2 ^ 63 + e' * 2 ^ 52 + m'))"

definition round_half_even :: "int \<Rightarrow> nat \<Rightarrow> int" where
  "round_half_even x n =
     (let q = x div 2 ^ n; r = x mod 2 ^ n
      in if 2 * r > 2 ^ n \<or> (2 * r = 2 ^ n \<and> odd q) then q + 1 else q)"

definition ieee_double_to_float :: "64 word \<Rightarrow> 32 word" where
  "ieee_double_to_float d =
     (let s = uint (drop_bit 63 d); e = uint (drop_bit 52 d AND 0x7ff);
          m = uint (d AND 0xfffffffffffff);
          bits =
            (if e = 2047 then (if m = 0 then 0x7f800000 else 0x7fc00000 OR m div 2 ^ 29)
             else if e = 0 then 0
             else (let r = round_half_even (2 ^ 52 + m) (nat (max 29 (926 - e)))
                   in if 897 \<le> e then min 0x7f800000 ((e - 897) * 2 ^ 23 + r) else r))
      in word_of_int (s * 2 ^ 31 + bits))"

text \<open>
  A 64-bit little-endian IEEE 754 build with MRB_INT64, where a Fixnum is any 64-bit
  integer. Its coercions reject whatever is not a number already.
\<close>

definition host64 :: host where
  "host64 =
     \<lparr>littleendian = True, sizeof_int = 4, mrb_int64 = True,
      mrb_int_min = - (2 ^ 63), mrb_int_max = 2 ^ 63 - 1,
      coerce_int = (\<lambda>v. Inl (Raise E_TYPE_ERROR ''can not convert to Integer'')),
      coerce_flo = (\<lambda>v. Inl (Raise E_TYPE_ERROR ''can not convert to Float'')),
      double_to_float = ieee_double_to_float,
      float_to_double = ieee_float_to_double,
      class_path = (\<lambda>v. VString []),
      str_new_negative = Some (Raise E_ARGUMENT_ERROR ''string size too big'')\<rparr>"

section \<open>Notions used to state the properties\<close>

text \<open>
  The code point that a UTF-8 sequence of \<open>n\<close> bytes (5 or 6) at \<open>p\<close> spells: the low
  bits of the leading byte, then six bits from each of the \<open>n - 1\<close> bytes after it.
\<close>

definition utf8_payload :: "nat \<Rightarrow> byte list \<Rightarrow> int" where
  "utf8_payload n p =
     foldl (\<lambda>uv c. push_bit 6 uv OR uint (c AND 0x3f))
       (uint (p ! 0 AND (if n = 5 then 0x03 else 0x01))) (take (n - 1) (drop 1 p))"

text \<open>The flag that a modifier character sets.\<close>

definition modifier_flag :: "char \<Rightarrow> pack_flag" where
  "modifier_flag ch =
     (if ch = CHR ''_'' \<or> ch = CHR ''!'' then PACK_FLAG_s
      else if ch = CHR ''<'' then PACK_FLAG_LT else PACK_FLAG_GT)"

text \<open>
  The number that a list of bytes spells, least significant byte first; and, for each of
  the integer directives \<open>C c S s n v L l N V Q q\<close>: its width in bytes, whether it is
  signed, whether its bytes go least significant first on the host, and the integers
  that its width and signedness can represent.
\<close>

definition le_value :: "byte list \<Rightarrow> int" where
  "le_value bs = foldr (\<lambda>b a. uint b + 256 * a) bs 0"

definition int_dir_width :: "char \<Rightarrow> nat" where
  "int_dir_width X =
     (if X \<in> set ''Cc'' then 1 else if X \<in> set ''Ssnv'' then 2
      else if X \<in> set ''LlNV'' then 4 else 8)"

definition int_dir_signed :: "char \<Rightarrow> bool" where
  "int_dir_signed X = (X \<in> set ''cslq'')"

definition int_dir_little :: "host \<Rightarrow> char \<Rightarrow> bool" where
  "int_dir_little h X =
     (if X \<in> set ''nN'' then False else if X \<in> set ''vV'' then True else littleendian h)"

definition int_dir_representable :: "char \<Rightarrow> int \<Rightarrow> bool" where
  "int_dir_representable X v =
     (if int_dir_signed X
      then - (2 ^ (8 * int_dir_width X - 1)) \<le> v \<and> v < 2 ^ (8 * int_dir_width X - 1)
      else 0 \<le> v \<and> v < 2 ^ (8 * int_dir_width X))"

text \<open>
  What read_tmpl guarantees of a directive of the given template (its count is a count or
  \<open>-1\<close>, its size is that of its kind, and it is of kind UTF8 only where the template has
  a \<open>U\<close>), and the invariant that the states of an unpack run keep.
\<close>

definition directive_ok :: "string \<Rightarrow> directive \<Rightarrow> bool" where
  "directive_ok template d =
     (- 1 \<le> d_count d \<and> 0 \<le> d_size d
      \<and> (d_dir d = PACK_DIR_CHAR \<longrightarrow> d_size d = 1)
      \<and> (d_dir d = PACK_DIR_SHORT \<longrightarrow> d_size d = 2)
      \<and> (d_dir d = PACK_DIR_LONG \<longrightarrow> d_size d = 4)
      \<and> (d_dir d = PACK_DIR_QUAD \<longrightarrow> d_size d = 8)
      \<and> (d_dir d = PACK_DIR_FLOAT \<longrightarrow> d_size d = 4)
      \<and> (d_dir d = PACK_DIR_DOUBLE \<longrightarrow> d_size d = 8)
      \<and> (d_dir d = PACK_DIR_UTF8 \<longrightarrow> CHR ''U'' \<in> set template))"

definition cursor_inv :: "byte list \<Rightarrow> string \<Rightarrow> unpack_state \<Rightarrow> bool" where
  "cursor_inv str template s =
     (tmpl_str (u_tmpl s) = template
      \<and> 0 \<le> u_srcidx s \<and> u_srcidx s \<le> int (length str) + 1
      \<and> (CHR ''U'' \<notin> set template \<longrightarrow> u_srcidx s \<le> int (length str))
      \<and> (\<forall>d. u_loop s = Some d \<longrightarrow> directive_ok template d))"

text \<open>
  The fixed-width directives of unpack and their width in bytes; the value that one
  repetition of such a directive decodes from the source \<open>bs\<close> that is left, which is
  what its codec pushes; and the values of \<open>k\<close> repetitions one after the other, each
  \<open>dir_width\<close> bytes further on, or the error of the first repetition that raises.
\<close>

definition fixed_width_dir :: "pack_dir \<Rightarrow> bool" where
  "fixed_width_dir dir =
     (dir \<in> {PACK_DIR_CHAR, PACK_DIR_SHORT, PACK_DIR_LONG, PACK_DIR_QUAD, PACK_DIR_FLOAT,
              PACK_DIR_DOUBLE})"

definition dir_width :: "pack_dir \<Rightarrow> nat" where
  "dir_width dir =
     (if dir = PACK_DIR_CHAR then 1 else if dir = PACK_DIR_SHORT then 2
      else if dir = PACK_DIR_LONG \<or> dir = PACK_DIR_FLOAT then 4
      else if dir = PACK_DIR_QUAD \<or> dir = PACK_DIR_DOUBLE then 8 else 0)"

definition unpack_value :: "host \<Rightarrow> pack_dir \<Rightarrow> pack_flag set \<Rightarrow> byte list \<Rightarrow> error + mrb_value" where
  "unpack_value h dir flags bs =
     (case unpack_switch h dir bs (int (length bs)) [] flags of
        Inl e \<Rightarrow> Inl e
      | Inr (n, ary) \<Rightarrow> Inr (ary ! 0))"

fun unpack_values ::
  "host \<Rightarrow> pack_dir \<Rightarrow> pack_flag set \<Rightarrow> byte list \<Rightarrow> nat \<Rightarrow> error + mrb_value list" where
  "unpack_values h dir flags bs 0 = Inr []"
| "unpack_values h dir flags bs (Suc k) =
     (case unpack_value h dir flags bs of
        Inl e \<Rightarrow> Inl e
      | Inr v \<Rightarrow>
          (case unpack_values h dir flags (drop (dir_width dir) bs) k of
             Inl e \<Rightarrow> Inl e
           | Inr vs \<Rightarrow> Inr (v # vs)))"







section \<open>Properties\<close>

subsection \<open>Evaluation lemmas\<close>

lemmas tmpl_eval = has_tmpl_def read_tmpl_def tmpl_alias_def tmpl_switch_def read_suffix.simps
  read_count.simps isdigit_def strchr_def Let_def

lemmas unpack_eval = pack_unpack_def unpack_init_def unpack_step_def unpack_leave_def
  unpack_return_def unpack_switch_def

text \<open>A run that returns or raises within \<open>n\<close> steps is a run of pack_unpack.\<close>

lemma unpack_run_steps:
  "unpack_steps h str single n s = Inr (Returned r) \<Longrightarrow>
   unpack_run h str single s = Some (Inr r)"
proof (induction n arbitrary: s)
  case 0
  then show ?case by simp
next
  case (Suc n)
  then show ?case
    by (subst unpack_run.simps) (auto split: sum.splits unpack_step.splits)
qed

lemma unpack_run_steps_error:
  "unpack_steps h str single n s = Inl e \<Longrightarrow> unpack_run h str single s = Some (Inl e)"
proof (induction n arbitrary: s)
  case 0
  then show ?case by simp
next
  case (Suc n)
  then show ?case
    by (subst unpack_run.simps) (auto split: sum.splits unpack_step.splits)
qed

subsection \<open>Null padding with the consume-all count\<close>

text \<open>
  C10. On unpack, \<open>x*\<close> puts the read cursor at the end of the input, whatever the input
  and the cursor, and raises nothing; on pack it writes nothing, whatever the array, the
  bytes written so far and the write cursor. The first two conjuncts are the codecs
  unpack_x and pack_x with the count \<open>-1\<close> that \<open>*\<close> stands for, the others the step of
  the unpack engine and the loop of the pack engine on the template \<open>x*\<close>.
\<close>

theorem null_padding_consume_all:
  "unpack_x slen ary (- 1) flags = Inr slen
   \<and> pack_x didx (- 1) flags = Inr []
   \<and> unpack_step h str single
        \<lparr>u_tmpl = \<lparr>tmpl_str = ''x*'', tmpl_idx = 0\<rparr>, u_srcidx = srcidx, u_result = result,
         u_loop = None\<rparr>
      = Inr (Running \<lparr>u_tmpl = \<lparr>tmpl_str = ''x*'', tmpl_idx = 2\<rparr>,
                      u_srcidx = int (length str), u_result = result, u_loop = None\<rparr>)
   \<and> mrb_pack_unpack h str ''x*'' = Some (Inr (Unpacked_Array []))
   \<and> pack_while h vs \<lparr>tmpl_str = ''x*'', tmpl_idx = 0\<rparr> aidx ridx buf
      = Inr (take (nat ridx) buf)
   \<and> mrb_pack_pack h vs ''x*'' = Inr []"
proof -
  have rt: "read_tmpl h \<lparr>tmpl_str = ''x*'', tmpl_idx = 0\<rparr>
        = Inr (\<lparr>d_dir = PACK_DIR_NUL, d_type = PACK_TYPE_NONE, d_size = 0, d_count = - 1,
                  d_flags = (if littleendian h then {PACK_FLAG_LITTLEENDIAN} else {})\<rparr>,
               \<lparr>tmpl_str = ''x*'', tmpl_idx = 2\<rparr>)"
    by (simp add: tmpl_eval)
  have ux: "\<And>slen ary flags. unpack_x slen ary (- 1) flags = Inr slen"
    by (simp add: unpack_x_def)
  have px: "\<And>didx flags. pack_x didx (- 1) flags = Inr []"
    by (simp add: pack_x_def)
  have st: "\<And>srcidx result single. unpack_step h str single
        \<lparr>u_tmpl = \<lparr>tmpl_str = ''x*'', tmpl_idx = 0\<rparr>, u_srcidx = srcidx, u_result = result,
         u_loop = None\<rparr>
      = Inr (Running \<lparr>u_tmpl = \<lparr>tmpl_str = ''x*'', tmpl_idx = 2\<rparr>,
                      u_srcidx = int (length str), u_result = result, u_loop = None\<rparr>)"
    by (simp add: unpack_step_def rt ux has_tmpl_def)
  have st2: "\<And>srcidx result. unpack_step h str False
        \<lparr>u_tmpl = \<lparr>tmpl_str = ''x*'', tmpl_idx = 2\<rparr>, u_srcidx = srcidx, u_result = result,
         u_loop = None\<rparr>
      = Inr (Returned (Unpacked_Array result))"
    by (simp add: unpack_step_def has_tmpl_def unpack_return_def)
  have run: "mrb_pack_unpack h str ''x*'' = Some (Inr (Unpacked_Array []))"
    unfolding mrb_pack_unpack_def pack_unpack_def unpack_init_def
    by (subst unpack_run.simps, simp add: st, subst unpack_run.simps, simp add: st2)
  have pw: "\<And>aidx ridx buf. pack_while h vs \<lparr>tmpl_str = ''x*'', tmpl_idx = 0\<rparr> aidx ridx buf
              = Inr (take (nat ridx) buf)"
    by (subst pack_while.simps, simp add: rt px has_tmpl_def, subst pack_while.simps,
        simp add: has_tmpl_def)
  have pp: "mrb_pack_pack h vs ''x*'' = Inr []"
    by (simp add: mrb_pack_pack_def pw)
  from ux px st run pw pp show ?thesis by blast
qed

theorem null_padding_consume_all_witness:
  "mrb_pack_unpack host64 [0x61, 0x62, 0x63] ''x*'' = Some (Inr (Unpacked_Array []))
   \<and> mrb_pack_pack host64 [VFixnum 7] ''x*'' = Inr []"
  using null_padding_consume_all
    [of 0 "[]" "{}" 0 host64 "[0x61, 0x62, 0x63]" False 0 "[]" "[VFixnum 7]" 0 0 "[]"]
  by simp

subsection \<open>Single-value unpack\<close>

text \<open>
  C8. unpack1 is to return nil when the first directive produced no value. On the empty
  string with the template \<open>C*\<close> the directive produces none, the result array is empty,
  and pack_unpack returns \<open>RARRAY_PTR(result)[0]\<close>, a read past the end of the array.
\<close>

theorem unpack1_reads_empty_result:
  "mrb_pack_unpack1 h [] ''C*'' = Some (Inr Unpacked_Past_End)"
  by (simp add: mrb_pack_unpack1_def unpack_run.simps unpack_eval tmpl_eval)

text \<open>
  Nor does unpack1 stop after a first directive that is a string or hex directive: those
  end in \<open>continue\<close>, past \<open>if (single) break;\<close>, and the next directive runs.
\<close>

lemma unpack1_runs_on:
  "mrb_pack_unpack1 h [0x61, 0x62] ''a2x5''
     = Some (Inl (Raise E_ARGUMENT_ERROR ''x outside of string''))"
  by (simp add: mrb_pack_unpack1_def unpack_run.simps unpack_eval tmpl_eval unpack_a_def
      unpack_x_def)

subsection \<open>UTF-8 sequences of five and six bytes\<close>

lemma utf8_cont_foldl:
  "k \<le> length q \<Longrightarrow>
   utf8_cont q k uv =
     (if \<exists>c \<in> set (take k q). c AND 0xc0 \<noteq> 0x80
      then Inl (Raise E_ARGUMENT_ERROR ''malformed UTF-8 character'')
      else Inr (foldl (\<lambda>uv c. push_bit 6 uv OR uint (c AND 0x3f)) uv (take k q)))"
proof (induction k arbitrary: q uv)
  case 0
  then show ?case by simp
next
  case (Suc k)
  then obtain c q' where q: "q = c # q'" by (cases q) auto
  with Suc.prems have "k \<le> length q'" by simp
  from Suc.IH [OF this] show ?case by (simp add: q Let_def)
qed

lemma utf8_cont_numeral:
  "utf8_cont p (numeral k) uv =
     (let c = p ! 0 in
      if c AND 0xc0 \<noteq> 0x80 then Inl (Raise E_ARGUMENT_ERROR ''malformed UTF-8 character'')
      else utf8_cont (drop 1 p) (pred_numeral k) (push_bit 6 uv OR uint (c AND 0x3f)))"
  by (simp add: numeral_eq_Suc)

lemma byte_range_cases:
  fixes c :: byte
  assumes "0xF8 \<le> c" and "c \<le> 0xFD"
  shows "c = 0xF8 \<or> c = 0xF9 \<or> c = 0xFA \<or> c = 0xFB \<or> c = 0xFC \<or> c = 0xFD"
proof -
  from assms have "248 \<le> unat c" "unat c \<le> 253" by (simp_all add: word_le_nat_alt)
  then have "unat c = 248 \<or> unat c = 249 \<or> unat c = 250 \<or> unat c = 251 \<or> unat c = 252 \<or> unat c = 253"
    by arith
  then show ?thesis by (simp add: word_unat_eq_iff)
qed

text \<open>
  C3, as the code has it. A leading byte from \<open>0xF8\<close> to \<open>0xFD\<close> declares five
  (up to \<open>0xFB\<close>) or six bytes. With \<open>lenp\<close> bytes available, utf8_to_uv raises an
  ArgumentError when fewer than the declared bytes are available, when one of the bytes
  after the first is not \<open>10xxxxxx\<close>, or when the code point is below \<open>0x200000\<close>
  (five bytes) or \<open>0x4000000\<close> (six bytes); in every other case it returns the code
  point and the declared length, so such a sequence is decoded.
\<close>

theorem utf8_long_sequence:
  assumes lead: "0xF8 \<le> p ! 0" "p ! 0 \<le> 0xFD"
    and avail: "lenp \<le> int (length p)"
    and n: "n = (if p ! 0 \<le> 0xFB then 5 else 6)"
  shows "utf8_to_uv p lenp =
     (if lenp < int n then
        Inl (Raisef E_ARGUMENT_ERROR
               ''malformed UTF-8 character (expected %S bytes, given %S bytes)''
               [VFixnum (int n), VFixnum lenp])
      else if \<exists>c \<in> set (take (n - 1) (drop 1 p)). c AND 0xc0 \<noteq> 0x80 then
        Inl (Raise E_ARGUMENT_ERROR ''malformed UTF-8 character'')
      else if utf8_payload n p < (if n = 5 then 0x200000 else 0x4000000) then
        Inl (Raise E_ARGUMENT_ERROR ''redundant UTF-8 sequence'')
      else Inr (utf8_payload n p, int n))"
proof (cases "lenp < int n")
  case True
  from byte_range_cases [OF lead] n True show ?thesis
    by (auto simp: utf8_to_uv_def)
next
  case False
  with avail n have len: "n - 1 \<le> length (drop 1 p)" by (auto split: if_splits)
  have cont: "utf8_cont (drop 1 p) (n - 1) uv =
     (if \<exists>c \<in> set (take (n - 1) (drop 1 p)). c AND 0xc0 \<noteq> 0x80
      then Inl (Raise E_ARGUMENT_ERROR ''malformed UTF-8 character'')
      else Inr (foldl (\<lambda>uv c. push_bit 6 uv OR uint (c AND 0x3f)) uv (take (n - 1) (drop 1 p))))"
    for uv
    by (rule utf8_cont_foldl [OF len])
  consider (five) "n = 5" "p ! 0 = 0xF8 \<or> p ! 0 = 0xF9 \<or> p ! 0 = 0xFA \<or> p ! 0 = 0xFB"
    | (six) "n = 6" "p ! 0 = 0xFC \<or> p ! 0 = 0xFD"
    using byte_range_cases [OF lead] n by auto
  then show ?thesis
  proof cases
    case five
    from five(2) have hd: "utf8_to_uv p lenp =
        (if 5 > lenp then
               Inl (Raisef E_ARGUMENT_ERROR
                      ''malformed UTF-8 character (expected %S bytes, given %S bytes)''
                      [VFixnum 5, VFixnum lenp])
             else
               (case utf8_cont (drop 1 p) (5 - 1) (uint (p ! 0 AND 0x03)) of Inl e \<Rightarrow> Inl e
                | Inr uv \<Rightarrow>
                    if uv < utf8_limits ! (5 - 1)
                    then Inl (Raise E_ARGUMENT_ERROR ''redundant UTF-8 sequence'')
                    else Inr (uv, int 5)))"
      by (auto simp: utf8_to_uv_def)
    show ?thesis
      using False cont [of "uint (p ! 0 AND 0x03)"] unfolding hd
      by (simp add: five(1) utf8_payload_def utf8_limits_def)
  next
    case six
    from six(2) have hd: "utf8_to_uv p lenp =
        (if 6 > lenp then
               Inl (Raisef E_ARGUMENT_ERROR
                      ''malformed UTF-8 character (expected %S bytes, given %S bytes)''
                      [VFixnum 6, VFixnum lenp])
             else
               (case utf8_cont (drop 1 p) (6 - 1) (uint (p ! 0 AND 0x01)) of Inl e \<Rightarrow> Inl e
                | Inr uv \<Rightarrow>
                    if uv < utf8_limits ! (6 - 1)
                    then Inl (Raise E_ARGUMENT_ERROR ''redundant UTF-8 sequence'')
                    else Inr (uv, int 6)))"
      by (auto simp: utf8_to_uv_def)
    show ?thesis
      using False cont [of "uint (p ! 0 AND 0x01)"] unfolding hd
      by (simp add: six(1) utf8_payload_def utf8_limits_def)
  qed
qed

theorem utf8_long_sequence_witness:
  "utf8_to_uv [0xF8, 0x88, 0x80, 0x80, 0x80] 5 = Inr (0x200000, 5)"
  using utf8_long_sequence [of "[0xF8, 0x88, 0x80, 0x80, 0x80]" 5 5]
  by (simp add: utf8_payload_def)

text \<open>
  C3 as stated fails: the five bytes \<open>F8 88 80 80 80\<close> are decoded by \<open>unpack("U")\<close>
  to the code point \<open>0x200000\<close>.
\<close>

theorem utf8_five_bytes_decoded:
  "mrb_pack_unpack host64 [0xF8, 0x88, 0x80, 0x80, 0x80] ''U''
     = Some (Inr (Unpacked_Array [VFixnum 0x200000]))"
  by (simp add: mrb_pack_unpack_def unpack_run.simps unpack_eval tmpl_eval unpack_utf8_def
      utf8_to_uv_def utf8_limits_def host64_def utf8_cont_numeral)

subsection \<open>Modifier characters\<close>

text \<open>
  C6, as the code has it. Where the suffix loop meets one of \<open>_ ! < >\<close> after a
  directive character \<open>t\<close> (as it is after the alias step, and not NUL): if \<open>t\<close> is one
  of \<open>sSiIlLqQ\<close> the loop goes on with the modifier's flag set, and otherwise it raises
  the ArgumentError whose argument is that modifier character; so a template that starts
  with another directive character followed by a modifier raises that error. A modifier
  character that stands where a directive is read is no modifier: it is not an alias
  and the \<open>switch\<close> gives it the kind PACK_DIR_INVALID, which both engines skip.
\<close>

theorem modifier_only_after_integer:
  assumes "idx < tlen" and "tptr ! idx = ch" and "ch \<in> set ''_!<>''" and "t \<noteq> CHR 0x00"
  shows "read_suffix tptr tlen t count flags idx =
           (if t \<in> set ''sSiIlLqQ''
            then read_suffix tptr tlen t count (insert (modifier_flag ch) flags) (idx + 1)
            else Inl (Raisef E_ARGUMENT_ERROR modifier_msg [VString [of_char ch]]))
         \<and> (t \<notin> set ''sSiIlLqQ'' \<longrightarrow>
              read_tmpl h \<lparr>tmpl_str = t # ch # rest, tmpl_idx = 0\<rparr>
                = Inl (Raisef E_ARGUMENT_ERROR modifier_msg [VString [of_char ch]]))
         \<and> tmpl_alias h ch = Inr ch
         \<and> tmpl_switch ch = (PACK_DIR_INVALID, PACK_TYPE_NONE, 0, {})"
proof -
  from assms(3) have ch: "ch = CHR ''_'' \<or> ch = CHR ''!'' \<or> ch = CHR ''<'' \<or> ch = CHR ''>''"
    by auto
  have nd: "\<not> isdigit ch" and ns: "ch \<noteq> CHR ''*''"
    using ch by (auto simp: isdigit_def)
  have step: "read_suffix tptr tlen t count flags idx =
           (if t \<in> set ''sSiIlLqQ''
            then read_suffix tptr tlen t count (insert (modifier_flag ch) flags) (idx + 1)
            else Inl (Raisef E_ARGUMENT_ERROR modifier_msg [VString [of_char ch]]))"
    using assms(1,2,4) nd ns ch
    by (subst read_suffix.simps) (auto simp: Let_def strchr_def modifier_flag_def)
  have one: "read_suffix (t # ch # rest) (length (t # ch # rest)) t c f 1 =
           (if t \<in> set ''sSiIlLqQ''
            then read_suffix (t # ch # rest) (length (t # ch # rest)) t c
                   (insert (modifier_flag ch) f) (1 + 1)
            else Inl (Raisef E_ARGUMENT_ERROR modifier_msg [VString [of_char ch]]))" for c f
    using assms(4) nd ns ch
    by (subst read_suffix.simps) (auto simp: Let_def strchr_def modifier_flag_def)
  have rt: "t \<notin> set ''sSiIlLqQ'' \<longrightarrow>
              read_tmpl h \<lparr>tmpl_str = t # ch # rest, tmpl_idx = 0\<rparr>
                = Inl (Raisef E_ARGUMENT_ERROR modifier_msg [VString [of_char ch]])"
  proof
    assume nt: "t \<notin> set ''sSiIlLqQ''"
    then have al: "tmpl_alias h t = Inr t" by (auto simp: tmpl_alias_def)
    obtain a b c d where sw: "tmpl_switch t = (a, b, c, d)" by (cases "tmpl_switch t") auto
    show "read_tmpl h \<lparr>tmpl_str = t # ch # rest, tmpl_idx = 0\<rparr>
                = Inl (Raisef E_ARGUMENT_ERROR modifier_msg [VString [of_char ch]])"
      using nt one [of 1 d] by (simp add: read_tmpl_def al sw)
  qed
  have al: "tmpl_alias h ch = Inr ch" using ch by (elim disjE; simp add: tmpl_alias_def)
  have sw: "tmpl_switch ch = (PACK_DIR_INVALID, PACK_TYPE_NONE, 0, {})"
    using ch by (elim disjE; simp add: tmpl_switch_def)
  from step rt al sw show ?thesis by blast
qed

theorem modifier_only_after_integer_witness:
  "read_suffix ''C_'' 2 (CHR ''C'') 1 {} 1
     = Inl (Raisef E_ARGUMENT_ERROR modifier_msg [VString [0x5f]])
   \<and> read_tmpl host64 \<lparr>tmpl_str = ''C_'', tmpl_idx = 0\<rparr>
     = Inl (Raisef E_ARGUMENT_ERROR modifier_msg [VString [0x5f]])
   \<and> read_suffix ''S_'' 2 (CHR ''S'') 1 {} 1 = Inr (1, {PACK_FLAG_s}, 2)"
  using modifier_only_after_integer [of 1 2 "''C_''" "CHR ''_''" "CHR ''C''" 1 "{}" host64 "[]"]
    modifier_only_after_integer [of 1 2 "''S_''" "CHR ''_''" "CHR ''S''" 1 "{}" host64 "[]"]
  by (simp add: modifier_flag_def read_suffix.simps)

text \<open>
  C6 as stated fails: in \<open>[1].pack("<L")\<close> the modifier \<open><\<close> does not follow one of
  \<open>sSiIlLqQ\<close>, and nothing is raised: it is read as a directive of no known kind.
\<close>

theorem modifier_first_is_skipped:
  "read_tmpl host64 \<lparr>tmpl_str = ''<L'', tmpl_idx = 0\<rparr>
     = Inr (\<lparr>d_dir = PACK_DIR_INVALID, d_type = PACK_TYPE_NONE, d_size = 0, d_count = 1,
              d_flags = {PACK_FLAG_LITTLEENDIAN}\<rparr>, \<lparr>tmpl_str = ''<L'', tmpl_idx = 1\<rparr>)
   \<and> mrb_pack_pack host64 [VFixnum 1] ''<L'' = Inr [1, 0, 0, 0]"
  by (simp add: tmpl_eval host64_def mrb_pack_pack_def pack_while.simps pack_for.simps
      pack_coerce_def to_int_def pack_switch_def pack_l_def str_len_ensure_def)

text \<open>
  After the directive character NUL a modifier is accepted as well, because
  \<open>strchr("sSiIlLqQ", 0)\<close> finds the terminator of the string.
\<close>

lemma modifier_after_nul:
  "read_tmpl host64 \<lparr>tmpl_str = [CHR 0x00, CHR ''_''], tmpl_idx = 0\<rparr>
     = Inr (\<lparr>d_dir = PACK_DIR_INVALID, d_type = PACK_TYPE_NONE, d_size = 0, d_count = 1,
              d_flags = {PACK_FLAG_s, PACK_FLAG_LITTLEENDIAN}\<rparr>,
            \<lparr>tmpl_str = [CHR 0x00, CHR ''_''], tmpl_idx = 2\<rparr>)"
  by (simp add: tmpl_eval host64_def insert_commute)

subsection \<open>Integer codecs: bytes and values\<close>


lemma le_bytes_0: "le_bytes w 0 = []"
  by (simp add: le_bytes_def)

lemma le_bytes_Suc: "le_bytes w (Suc n) = ucast w # le_bytes (drop_bit 8 w) n"
proof -
  have "[0..<Suc n] = 0 # map Suc [0..<n]"
    by (simp add: upt_conv_Cons map_Suc_upt del: upt_Suc)
  then show ?thesis
    by (simp add: le_bytes_def drop_bit_drop_bit add.commute del: upt_Suc)
qed

lemma le_value_le_bytes:
  fixes w :: "'a::len word"
  shows "le_value (le_bytes w n) = uint w mod 2 ^ (8 * n)"
proof (induction n arbitrary: w)
  case 0
  show ?case by (simp add: le_bytes_def le_value_def)
next
  case (Suc n)
  have "le_value (le_bytes w (Suc n))
          = uint (ucast w :: byte) + 256 * le_value (le_bytes (drop_bit 8 w) n)"
    by (simp add: le_bytes_Suc le_value_def)
  also have "\<dots> = uint w mod 256 + 256 * ((uint w div 256) mod 2 ^ (8 * n))"
    by (simp add: Suc.IH unsigned_ucast_eq unsigned_drop_bit_eq take_bit_eq_mod
        drop_bit_eq_div [where ?'a = int])
  also have "\<dots> = uint w mod 2 ^ (8 * Suc n)"
    by (simp add: zmod_zmult2_eq power_add)
  finally show ?case .
qed

lemma ucast_and_ff: "(ucast ((w :: 'a::len word) AND 0xff) :: 8 word) = ucast w"
proof -
  have m: "(0xff :: 'a word) = mask 8" by (simp add: mask_eq_exp_minus_1)
  show ?thesis unfolding m by (rule bit_word_eqI) (auto simp: bit_simps dest: bit_imp_le_length)
qed

lemma ucast_mod_256: "(ucast ((w :: 16 word) mod 256) :: 8 word) = ucast w"
  by (rule bit_word_eqI)
     (auto simp: bit_simps word_mod_2p_is_mask [of 8, simplified] simp flip: take_bit_eq_mod)

lemma ucast_div_256: "(ucast ((w :: 16 word) div 256) :: 8 word) = ucast (drop_bit 8 w)"
  by (simp add: drop_bit_eq_div)

lemma pack_c_bytes: "0 \<le> sidx \<Longrightarrow> pack_c (VFixnum v) sidx flags = Inr [word_of_int v]"
  by (simp add: pack_c_def str_len_ensure_def)

lemma pack_s_bytes:
  "0 \<le> sidx \<Longrightarrow> pack_s (VFixnum v) sidx flags =
     Inr (if PACK_FLAG_LITTLEENDIAN \<in> flags then le_bytes (word_of_int v :: 16 word) 2
          else rev (le_bytes (word_of_int v :: 16 word) 2))"
  by (simp add: pack_s_def str_len_ensure_def eval_nat_numeral le_bytes_Suc le_bytes_0
      ucast_mod_256 ucast_div_256 Let_def)

lemma pack_l_bytes:
  "0 \<le> sidx \<Longrightarrow> pack_l (VFixnum v) sidx flags =
     Inr (if PACK_FLAG_LITTLEENDIAN \<in> flags then le_bytes (word_of_int v :: 32 word) 4
          else rev (le_bytes (word_of_int v :: 32 word) 4))"
  by (simp add: pack_l_def str_len_ensure_def eval_nat_numeral le_bytes_Suc le_bytes_0
      ucast_and_ff Let_def drop_bit_drop_bit)

lemma pack_q_bytes:
  "0 \<le> sidx \<Longrightarrow> pack_q (VFixnum v) sidx flags =
     Inr (if PACK_FLAG_LITTLEENDIAN \<in> flags then le_bytes (word_of_int v :: 64 word) 8
          else rev (le_bytes (word_of_int v :: 64 word) 8))"
  by (simp add: pack_q_def str_len_ensure_def eval_nat_numeral le_bytes_Suc le_bytes_0
      ucast_and_ff Let_def drop_bit_drop_bit)


lemma unpack_q_loop_numeral:
  "unpack_q_loop src (numeral k) pos step ull =
     unpack_q_loop src (pred_numeral k) (pos + step) step (ull * 256 + ucast (src ! nat pos))"
  by (simp add: numeral_eq_Suc)

lemma word_of_le_value_2:
  "word_of_int (le_value [b0, b1]) = (ucast b1 :: 'a::len word) * 256 + ucast b0"
  by (simp add: le_value_def flip: ucast_eq)

lemma unpack_l_word:
  "(ucast b3 :: 32 word) * 256 * 256 * 256 + ucast b2 * 256 * 256 + ucast b1 * 256 + ucast b0
     = word_of_int (le_value [b0, b1, b2, b3])"
  by (simp add: le_value_def flip: ucast_eq)

lemma unpack_q_word_le:
  "unpack_q_loop [b0, b1, b2, b3, b4, b5, b6, b7] 8 7 (- 1) 0
     = word_of_int (le_value [b0, b1, b2, b3, b4, b5, b6, b7])"
  by (simp add: unpack_q_loop_numeral le_value_def flip: ucast_eq)

lemma unpack_q_word_be:
  "unpack_q_loop [b7, b6, b5, b4, b3, b2, b1, b0] 8 0 1 0
     = word_of_int (le_value [b0, b1, b2, b3, b4, b5, b6, b7])"
  by (simp add: unpack_q_loop_numeral le_value_def flip: ucast_eq)

lemma word_of_le_value_le_bytes:
  fixes w :: "'a::len word"
  assumes "LENGTH('a) = 8 * n"
  shows "(word_of_int (le_value (le_bytes w n)) :: 'a word) = w"
proof -
  have "uint w mod 2 ^ (8 * n) = uint w"
    using uint_bounded [of w] assms by simp
  then show ?thesis by (simp add: le_value_le_bytes)
qed

lemma le_bytes_2: "le_bytes w 2 = [ucast w, ucast (drop_bit 8 w)]"
  by (simp add: eval_nat_numeral le_bytes_Suc le_bytes_0)

lemma le_bytes_4:
  "le_bytes w 4 = [ucast w, ucast (drop_bit 8 w), ucast (drop_bit 16 w), ucast (drop_bit 24 w)]"
  by (simp add: eval_nat_numeral le_bytes_Suc le_bytes_0 drop_bit_drop_bit)

lemma le_bytes_8:
  "le_bytes w 8 = [ucast w, ucast (drop_bit 8 w), ucast (drop_bit 16 w), ucast (drop_bit 24 w),
                   ucast (drop_bit 32 w), ucast (drop_bit 40 w), ucast (drop_bit 48 w),
                   ucast (drop_bit 56 w)]"
  by (simp add: eval_nat_numeral le_bytes_Suc le_bytes_0 drop_bit_drop_bit)

lemma unpack_c_value:
  "unpack_c [b] slen ary flags =
     Inr (1, ary @ [VFixnum (if PACK_FLAG_SIGNED \<in> flags then sint b else uint b)])"
  by (simp add: unpack_c_def)

lemma unpack_s_value:
  fixes w :: "16 word"
  shows "unpack_s (if PACK_FLAG_LITTLEENDIAN \<in> flags then le_bytes w 2 else rev (le_bytes w 2))
           slen ary flags =
         Inr (2, ary @ [VFixnum (if PACK_FLAG_SIGNED \<in> flags \<and> uint w \<ge> 0x8000
                                 then uint w - 0x10000 else uint w)])"
proof -
  have "le_value (le_bytes w 2) = uint w"
    using uint_bounded [of w] by (simp add: le_value_le_bytes)
  then have "uint (ucast (drop_bit 8 w) :: byte) * 256 + uint (ucast w :: byte) = uint w"
    by (simp add: le_bytes_2 le_value_def)
  then show ?thesis
    by (simp add: unpack_s_def le_bytes_2 Let_def)
qed

lemma unpack_l_value:
  fixes w :: "32 word"
  shows "unpack_l h (if PACK_FLAG_LITTLEENDIAN \<in> flags then le_bytes w 4 else rev (le_bytes w 4))
           slen ary flags =
         (if PACK_FLAG_SIGNED \<in> flags then
            (if \<not> mrb_int64 h \<and> \<not> FIXABLE h (sint w)
             then Inl (Raisef E_RANGE_ERROR ''cannot unpack to Fixnum: %ld'' [VFixnum (sint w)])
             else Inr (4, ary @ [VFixnum (sint w)]))
          else
            (if \<not> mrb_int64 h \<and> \<not> POSFIXABLE h (uint w)
             then Inl (Raisef E_RANGE_ERROR ''cannot unpack to Fixnum: %lu'' [VFixnum (uint w)])
             else Inr (4, ary @ [VFixnum (uint w)])))"
proof -
  have "(word_of_int (le_value (le_bytes w 4)) :: 32 word) = w"
    by (rule word_of_le_value_le_bytes) simp
  then have "(ucast (ucast (drop_bit 24 w) :: byte) :: 32 word) * 256 * 256 * 256
        + ucast (ucast (drop_bit 16 w) :: byte) * 256 * 256
        + ucast (ucast (drop_bit 8 w) :: byte) * 256 + ucast (ucast w :: byte) = w"
    by (simp only: le_bytes_4 unpack_l_word)
  then show ?thesis
    by (simp add: unpack_l_def le_bytes_4 Let_def)
qed

lemma unpack_q_value:
  fixes w :: "64 word"
  shows "unpack_q h (if PACK_FLAG_LITTLEENDIAN \<in> flags then le_bytes w 8 else rev (le_bytes w 8))
           slen ary flags =
         (if PACK_FLAG_SIGNED \<in> flags then
            (if \<not> FIXABLE h (sint w)
             then Inl (Raisef E_RANGE_ERROR ''cannot unpack to Fixnum: %lld'' [VFixnum (sint w)])
             else Inr (8, ary @ [VFixnum (sint w)]))
          else
            (if \<not> POSFIXABLE h (uint w)
             then Inl (Raisef E_RANGE_ERROR ''cannot unpack to Fixnum: %llu'' [VFixnum (uint w)])
             else Inr (8, ary @ [VFixnum (uint w)])))"
proof -
  have w: "(word_of_int (le_value (le_bytes w 8)) :: 64 word) = w"
    by (rule word_of_le_value_le_bytes) simp
  have le: "unpack_q_loop (le_bytes w 8) 8 7 (- 1) 0 = w"
    unfolding le_bytes_8 unpack_q_word_le using w by (simp only: le_bytes_8)
  have be: "unpack_q_loop (rev (le_bytes w 8)) 8 0 1 0 = w"
    unfolding le_bytes_8 rev.simps append.simps unpack_q_word_be using w by (simp only: le_bytes_8)
  show ?thesis
    by (simp add: unpack_q_def le be Let_def)
qed


lemma pack_single:
  assumes rt: "read_tmpl h \<lparr>tmpl_str = [X], tmpl_idx = 0\<rparr>
                 = Inr (d, \<lparr>tmpl_str = [X], tmpl_idx = 1\<rparr>)"
    and dir: "d_dir d \<noteq> PACK_DIR_INVALID" "d_dir d \<noteq> PACK_DIR_NUL"
    and cnt: "d_count d = 1"
    and co: "pack_coerce h (d_type d) v = Inr v'"
    and sw: "pack_switch h (d_dir d) v' 0 1 (d_flags d) = Inr bs"
  shows "mrb_pack_pack h [v] [X] = Inr bs"
proof -
  have last: "pack_while h [v] \<lparr>tmpl_str = [X], tmpl_idx = 1\<rparr> 1 (int (length bs)) bs = Inr bs"
    by (subst pack_while.simps) (simp add: has_tmpl_def)
  have inner: "pack_for h [v] (d_dir d) (d_type d) (d_flags d) 1 0 0 []
               = Inr (1, int (length bs), bs)"
    by (subst pack_for.simps, simp add: co sw, subst pack_for.simps, simp)
  show ?thesis
    unfolding mrb_pack_pack_def
    by (subst pack_while.simps) (use last inner in \<open>simp add: has_tmpl_def rt dir cnt\<close>)
qed

lemma unpack_single:
  assumes rt: "read_tmpl h \<lparr>tmpl_str = [X], tmpl_idx = 0\<rparr>
                 = Inr (d, \<lparr>tmpl_str = [X], tmpl_idx = 1\<rparr>)"
    and dir: "d_dir d \<noteq> PACK_DIR_INVALID" "d_dir d \<noteq> PACK_DIR_NUL"
    and fl: "PACK_FLAG_COUNT2 \<notin> d_flags d"
    and cnt: "d_count d = 1"
    and sz: "d_size d \<le> int (length str)"
    and sw: "unpack_switch h (d_dir d) str (int (length str)) [] (d_flags d) = Inr (n, ary)"
  shows "mrb_pack_unpack h str [X] = Some (Inr (Unpacked_Array ary))"
proof -
  have "unpack_steps h str False (Suc (Suc (Suc (Suc 0)))) (unpack_init [X])
          = Inr (Returned (Unpacked_Array ary))"
    using dir fl cnt sz
    by (simp add: unpack_init_def unpack_step_def has_tmpl_def rt sw unpack_leave_def
        unpack_return_def Let_def)
  from unpack_run_steps [OF this] show ?thesis
    by (simp add: mrb_pack_unpack_def pack_unpack_def)
qed

lemma read_tmpl_int:
  assumes "X \<in> set ''CcSsnvLlNVQq''"
  shows "\<exists>d. read_tmpl h \<lparr>tmpl_str = [X], tmpl_idx = 0\<rparr>
               = Inr (d, \<lparr>tmpl_str = [X], tmpl_idx = 1\<rparr>)
          \<and> d_dir d = (if int_dir_width X = 1 then PACK_DIR_CHAR
                        else if int_dir_width X = 2 then PACK_DIR_SHORT
                        else if int_dir_width X = 4 then PACK_DIR_LONG else PACK_DIR_QUAD)
          \<and> d_type d = PACK_TYPE_INTEGER \<and> d_size d = int (int_dir_width X) \<and> d_count d = 1
          \<and> (PACK_FLAG_LITTLEENDIAN \<in> d_flags d) = int_dir_little h X
          \<and> (PACK_FLAG_SIGNED \<in> d_flags d) = int_dir_signed X
          \<and> PACK_FLAG_COUNT2 \<notin> d_flags d"
proof -
  from assms have "X = CHR ''C'' \<or> X = CHR ''c'' \<or> X = CHR ''S'' \<or> X = CHR ''s''
      \<or> X = CHR ''n'' \<or> X = CHR ''v'' \<or> X = CHR ''L'' \<or> X = CHR ''l'' \<or> X = CHR ''N''
      \<or> X = CHR ''V'' \<or> X = CHR ''Q'' \<or> X = CHR ''q''"
    by simp
  then show ?thesis
    by (elim disjE;
        simp add: tmpl_eval int_dir_width_def int_dir_little_def int_dir_signed_def)
qed

lemma int_dir_width_cases:
  "int_dir_width X = 1 \<or> int_dir_width X = 2 \<or> int_dir_width X = 4 \<or> int_dir_width X = 8"
  by (simp add: int_dir_width_def)

lemma pack_int_bytes:
  assumes X: "X \<in> set ''CcSsnvLlNVQq''"
  shows "mrb_pack_pack h [VFixnum v] [X] =
     Inr (if int_dir_width X = 1 then [word_of_int v]
          else if int_dir_width X = 2 then
            (if int_dir_little h X then le_bytes (word_of_int v :: 16 word) 2
             else rev (le_bytes (word_of_int v :: 16 word) 2))
          else if int_dir_width X = 4 then
            (if int_dir_little h X then le_bytes (word_of_int v :: 32 word) 4
             else rev (le_bytes (word_of_int v :: 32 word) 4))
          else
            (if int_dir_little h X then le_bytes (word_of_int v :: 64 word) 8
             else rev (le_bytes (word_of_int v :: 64 word) 8)))"
proof -
  from read_tmpl_int [OF X, of h] obtain d where
    rt: "read_tmpl h \<lparr>tmpl_str = [X], tmpl_idx = 0\<rparr>
           = Inr (d, \<lparr>tmpl_str = [X], tmpl_idx = 1\<rparr>)"
    and d: "d_dir d = (if int_dir_width X = 1 then PACK_DIR_CHAR
                        else if int_dir_width X = 2 then PACK_DIR_SHORT
                        else if int_dir_width X = 4 then PACK_DIR_LONG else PACK_DIR_QUAD)"
       "d_type d = PACK_TYPE_INTEGER" "d_count d = 1"
       "(PACK_FLAG_LITTLEENDIAN \<in> d_flags d) = int_dir_little h X"
    by blast
  have co: "pack_coerce h (d_type d) (VFixnum v) = Inr (VFixnum v)"
    by (simp add: d pack_coerce_def to_int_def)
  show ?thesis
    by (rule pack_single [OF rt _ _ d(3) co])
       (use int_dir_width_cases [of X] d in
          \<open>auto simp: pack_switch_def pack_c_bytes pack_s_bytes pack_l_bytes pack_q_bytes\<close>)
qed

text \<open>
  C9. For each of the integer directives \<open>C c S s n v L l N V Q q\<close> and every integer
  \<open>v\<close>, packing \<open>[v]\<close> raises nothing: it returns as many bytes as the directive is
  wide, and these bytes, read in the directive's byte order, spell \<open>v\<close> modulo
  \<open>2 ^ (8 * width)\<close>.
\<close>

theorem pack_integer_truncates:
  assumes X: "X \<in> set ''CcSsnvLlNVQq''"
  shows "\<exists>bs. mrb_pack_pack h [VFixnum v] [X] = Inr bs
           \<and> length bs = int_dir_width X
           \<and> le_value (if int_dir_little h X then bs else rev bs)
               = v mod 2 ^ (8 * int_dir_width X)"
proof -
  have c: "le_value [word_of_int v] = v mod 2 ^ 8"
    by (simp add: le_value_def uint_word_of_int)
  have s: "le_value (le_bytes (word_of_int v :: 16 word) 2) = v mod 2 ^ 16"
    by (simp add: le_value_le_bytes uint_word_of_int)
  have l: "le_value (le_bytes (word_of_int v :: 32 word) 4) = v mod 2 ^ 32"
    by (simp add: le_value_le_bytes uint_word_of_int)
  have q: "le_value (le_bytes (word_of_int v :: 64 word) 8) = v mod 2 ^ 64"
    by (simp add: le_value_le_bytes uint_word_of_int)
  have len: "length (le_bytes w n) = n" for w :: "'a::len word" and n
    by (simp add: le_bytes_def)
  from int_dir_width_cases [of X] show ?thesis
    unfolding pack_int_bytes [OF X]
    by (elim disjE) (simp_all add: c s l q len)
qed

theorem pack_integer_truncates_witness:
  "\<exists>bs. mrb_pack_pack host64 [VFixnum 65537] ''S'' = Inr bs
      \<and> length bs = int_dir_width (CHR ''S'')
      \<and> le_value (if int_dir_little host64 (CHR ''S'') then bs else rev bs)
          = 65537 mod 2 ^ (8 * int_dir_width (CHR ''S''))"
  using pack_integer_truncates [of "CHR ''S''" host64 65537] by simp

lemma int_value_signed:
  fixes v :: int
  assumes "- (2 ^ (LENGTH('a::len) - 1)) \<le> v" "v < 2 ^ (LENGTH('a) - 1)"
  shows "sint (word_of_int v :: 'a word) = v"
  using assms by (simp add: signed_of_int signed_take_bit_int_eq_self)

lemma int_value_unsigned:
  fixes v :: int
  assumes "0 \<le> v" "v < 2 ^ LENGTH('a::len)"
  shows "uint (word_of_int v :: 'a word) = v"
  using assms by (simp add: uint_word_of_int)

lemma short_value:
  fixes v :: int
  assumes "- 32768 \<le> v" and "v < 32768"
  shows "(32768 \<le> v mod 65536 \<longrightarrow> v mod 65536 - 65536 = v)
         \<and> (\<not> 32768 \<le> v mod 65536 \<longrightarrow> v mod 65536 = v)"
proof (cases "v < 0")
  case True
  have "(v + 65536) mod 65536 = v + 65536"
    using True assms by (intro mod_pos_pos_trivial) simp_all
  then have "v mod 65536 = v + 65536" by simp
  with True assms show ?thesis by simp
next
  case False
  with assms have "v mod 65536 = v" by simp
  with assms show ?thesis by simp
qed

text \<open>
  C2. For each of the integer directives \<open>C c S s n v L l N V Q q\<close> and every integer
  \<open>v\<close> that the directive's width and signedness can represent, packing \<open>[v]\<close> and
  unpacking the bytes with the same directive gives \<open>[v]\<close> back. The array entry is the
  Fixnum \<open>v\<close>, so \<open>v\<close> is an integer that a Fixnum of the host holds, which is the
  premise \<open>FIXABLE h v\<close>: pack_q reads \<open>_fixnum(o)\<close>, an \<open>_int\<close>, and no other integer
  can reach it. The guards of unpack_l and unpack_q, which raise a RangeError on a
  decoded value outside the Fixnum range, are never taken on these bytes.
\<close>

theorem integer_round_trip:
  assumes X: "X \<in> set ''CcSsnvLlNVQq''"
    and rep: "int_dir_representable X v"
    and fx: "FIXABLE h v"
  shows "\<exists>bs. mrb_pack_pack h [VFixnum v] [X] = Inr bs
           \<and> mrb_pack_unpack h bs [X] = Some (Inr (Unpacked_Array [VFixnum v]))"
proof -
  from read_tmpl_int [OF X, of h] obtain d where
    rt: "read_tmpl h \<lparr>tmpl_str = [X], tmpl_idx = 0\<rparr>
           = Inr (d, \<lparr>tmpl_str = [X], tmpl_idx = 1\<rparr>)"
    and dir: "d_dir d = (if int_dir_width X = 1 then PACK_DIR_CHAR
                        else if int_dir_width X = 2 then PACK_DIR_SHORT
                        else if int_dir_width X = 4 then PACK_DIR_LONG else PACK_DIR_QUAD)"
    and sz: "d_size d = int (int_dir_width X)" and cnt: "d_count d = 1"
    and le: "(PACK_FLAG_LITTLEENDIAN \<in> d_flags d) = int_dir_little h X"
    and sg: "(PACK_FLAG_SIGNED \<in> d_flags d) = int_dir_signed X"
    and c2: "PACK_FLAG_COUNT2 \<notin> d_flags d"
    by blast
  have d1: "d_dir d \<noteq> PACK_DIR_INVALID" and d2: "d_dir d \<noteq> PACK_DIR_NUL"
    by (simp_all add: dir)
  have len: "length (le_bytes w n) = n" for w :: "'a::len word" and n
    by (simp add: le_bytes_def)
  from fx have pos: "POSFIXABLE h v" by (simp add: FIXABLE_def POSFIXABLE_def)
  note single = unpack_single [OF rt d1 d2 c2 cnt]
  from int_dir_width_cases [of X] show ?thesis
  proof (elim disjE)
    assume w: "int_dir_width X = 1"
    have "(if int_dir_signed X then sint (word_of_int v :: byte) else uint (word_of_int v :: byte)) = v"
      using rep w by (auto simp: int_dir_representable_def int_value_signed int_value_unsigned)
    then have "unpack_switch h (d_dir d) [word_of_int v] (int (length [word_of_int v :: byte])) []
                 (d_flags d) = Inr (1, [VFixnum v])"
      by (simp add: unpack_switch_def dir w unpack_c_value sg)
    from single [OF _ this] show ?thesis
      by (simp add: pack_int_bytes [OF X] w sz)
  next
    assume w: "int_dir_width X = 2"
    let ?w = "word_of_int v :: 16 word"
    let ?bs = "if int_dir_little h X then le_bytes ?w 2 else rev (le_bytes ?w 2)"
    have "(if int_dir_signed X \<and> uint ?w \<ge> 0x8000 then uint ?w - 0x10000 else uint ?w) = v"
    proof (cases "int_dir_signed X")
      case True
      with rep w short_value [of v] show ?thesis
        by (simp add: int_dir_representable_def uint_word_of_int)
    next
      case False
      with rep w show ?thesis
        by (simp add: int_dir_representable_def uint_word_of_int)
    qed
    then have "unpack_switch h (d_dir d) ?bs (int (length ?bs)) [] (d_flags d) = Inr (2, [VFixnum v])"
      using unpack_s_value [of "d_flags d" ?w "int (length ?bs)" "[]"]
      by (simp add: unpack_switch_def dir w sg le)
    from single [OF _ this] show ?thesis
      by (simp add: pack_int_bytes [OF X] w sz len)
  next
    assume w: "int_dir_width X = 4"
    let ?w = "word_of_int v :: 32 word"
    let ?bs = "if int_dir_little h X then le_bytes ?w 4 else rev (le_bytes ?w 4)"
    have "(if int_dir_signed X then sint ?w else uint ?w) = v"
      using rep w by (auto simp: int_dir_representable_def int_value_signed int_value_unsigned)
    then have "unpack_switch h (d_dir d) ?bs (int (length ?bs)) [] (d_flags d) = Inr (4, [VFixnum v])"
      using unpack_l_value [of h "d_flags d" ?w "int (length ?bs)" "[]"] fx pos
      by (auto simp: unpack_switch_def dir w sg le split: if_splits)
    from single [OF _ this] show ?thesis
      by (simp add: pack_int_bytes [OF X] w sz len)
  next
    assume w: "int_dir_width X = 8"
    let ?w = "word_of_int v :: 64 word"
    let ?bs = "if int_dir_little h X then le_bytes ?w 8 else rev (le_bytes ?w 8)"
    have "(if int_dir_signed X then sint ?w else uint ?w) = v"
      using rep w by (auto simp: int_dir_representable_def int_value_signed int_value_unsigned)
    then have "unpack_switch h (d_dir d) ?bs (int (length ?bs)) [] (d_flags d) = Inr (8, [VFixnum v])"
      using unpack_q_value [of h "d_flags d" ?w "int (length ?bs)" "[]"] fx pos
      by (auto simp: unpack_switch_def dir w sg le split: if_splits)
    from single [OF _ this] show ?thesis
      by (simp add: pack_int_bytes [OF X] w sz len)
  qed
qed

theorem integer_round_trip_witness:
  "\<exists>bs. mrb_pack_pack host64 [VFixnum (- 2)] ''l'' = Inr bs
      \<and> mrb_pack_unpack host64 bs ''l'' = Some (Inr (Unpacked_Array [VFixnum (- 2)]))"
  using integer_round_trip [of "CHR ''l''" "- 2" host64]
  by (simp add: int_dir_representable_def int_dir_signed_def int_dir_width_def FIXABLE_def
      host64_def)

subsection \<open>String directives consume one array entry\<close>

lemma read_count_nonneg:
  "read_count tptr tlen count idx = Inr (count', idx') \<Longrightarrow> 0 \<le> count \<Longrightarrow> 0 \<le> count'"
proof (induction tptr tlen count idx rule: read_count.induct)
  case (1 tptr tlen count idx)
  show ?case
  proof (cases "idx < tlen \<and> isdigit (tptr ! idx)")
    case True
    with "1.prems" "1.IH" show ?thesis
      by (subst (asm) read_count.simps) (fastforce simp: Let_def split: if_splits)
  next
    case False
    with "1.prems" show ?thesis
      by (subst (asm) read_count.simps) auto
  qed
qed

lemma read_suffix_props:
  "read_suffix tptr tlen t count flags idx = Inr (count', flags', idx') \<Longrightarrow> - 1 \<le> count \<Longrightarrow>
   flags \<subseteq> flags' \<and> - 1 \<le> count'"
proof (induction tptr tlen t count flags idx rule: read_suffix.induct)
  case (1 tptr tlen t count flags idx)
  note IH = "1.IH" and prems = "1.prems"(1) and cnt = "1.prems"(2)
  show ?case
  proof (cases "idx < tlen")
    case False
    with prems cnt show ?thesis by (subst (asm) read_suffix.simps) simp
  next
    case lt: True
    let ?ch = "tptr ! idx"
    show ?thesis
    proof (cases "isdigit ?ch")
      case True
      with prems lt obtain c i where
        rc: "read_count tptr tlen (int (of_char ?ch) - 48) (idx + 1) = Inr (c, i)"
        and rs: "read_suffix tptr tlen t c flags i = Inr (count', flags', idx')"
        by (subst (asm) read_suffix.simps)
           (auto simp: Let_def split: sum.splits)
      from True have "0 \<le> int (of_char ?ch) - 48" by (simp add: isdigit_def)
      from read_count_nonneg [OF rc this] have "- 1 \<le> c" by simp
      from IH(1) [OF lt refl True rc refl rs this] show ?thesis .
    next
      case nd: False
      show ?thesis
      proof (cases "?ch = CHR ''*''")
        case True
        with prems lt nd have "read_suffix tptr tlen t (- 1) flags (idx + 1) = Inr (count', flags', idx')"
          by (subst (asm) read_suffix.simps) (simp add: Let_def)
        from IH(2) [OF lt refl nd True this] show ?thesis by simp
      next
        case ns: False
        show ?thesis
        proof (cases "?ch = CHR ''_'' \<or> ?ch = CHR ''!'' \<or> ?ch = CHR ''<'' \<or> ?ch = CHR ''>''")
          case False
          with prems lt nd ns cnt show ?thesis
            by (subst (asm) read_suffix.simps) (simp add: Let_def)
        next
          case md: True
          from prems lt nd ns md have sc: "\<not> \<not> strchr ''sSiIlLqQ'' t"
            by (subst (asm) read_suffix.simps) (auto simp: Let_def split: if_splits)
          show ?thesis
          proof (cases "?ch = CHR ''_'' \<or> ?ch = CHR ''!''")
            case True
            with prems lt nd ns md sc
            have "read_suffix tptr tlen t count (insert PACK_FLAG_s flags) (idx + 1)
                    = Inr (count', flags', idx')"
              by (subst (asm) read_suffix.simps) (simp add: Let_def)
            from IH(3) [OF lt refl nd ns md sc True this cnt]
            show ?thesis by simp
          next
            case nu: False
            show ?thesis
            proof (cases "?ch = CHR ''<''")
              case True
              with prems lt nd ns md sc nu
              have "read_suffix tptr tlen t count (insert PACK_FLAG_LT flags) (idx + 1)
                      = Inr (count', flags', idx')"
                by (subst (asm) read_suffix.simps) (simp add: Let_def)
              from IH(4) [OF lt refl nd ns md sc nu True this cnt]
              show ?thesis by simp
            next
              case False
              with prems lt nd ns md sc nu
              have "read_suffix tptr tlen t count (insert PACK_FLAG_GT flags) (idx + 1)
                      = Inr (count', flags', idx')"
                by (subst (asm) read_suffix.simps) (simp add: Let_def)
              from IH(5) [OF lt refl nd ns md sc nu False this cnt]
              show ?thesis by simp
            qed
          qed
        qed
      qed
    qed
  qed
qed

lemma read_tmpl_string:
  assumes rt: "read_tmpl h tm = Inr (d, tm')"
    and ch: "tmpl_str tm ! tmpl_idx tm \<in> set ''AaZ''"
  shows "d_dir d = PACK_DIR_STR \<and> d_type d = PACK_TYPE_STRING \<and> PACK_FLAG_WIDTH \<in> d_flags d
         \<and> - 1 \<le> d_count d"
proof -
  let ?t = "tmpl_str tm ! tmpl_idx tm"
  from ch have al: "tmpl_alias h ?t = Inr ?t" by (auto simp: tmpl_alias_def)
  from ch obtain F where sw: "tmpl_switch ?t = (PACK_DIR_STR, PACK_TYPE_STRING, 0, F)"
    and F: "PACK_FLAG_WIDTH \<in> F"
    by (auto simp: tmpl_switch_def)
  from rt obtain c f i where
    rs: "read_suffix (tmpl_str tm) (length (tmpl_str tm)) ?t 1 F (tmpl_idx tm + 1) = Inr (c, f, i)"
    and d: "d = \<lparr>d_dir = PACK_DIR_STR, d_type = PACK_TYPE_STRING, d_size = 0, d_count = c,
                 d_flags = (if PACK_FLAG_LT \<in> f \<or> (PACK_FLAG_GT \<notin> f \<and> littleendian h)
                            then insert PACK_FLAG_LITTLEENDIAN f else f)\<rparr>"
    by (auto simp: read_tmpl_def al sw Let_def split: sum.splits)
  from read_suffix_props [OF rs] F have "PACK_FLAG_WIDTH \<in> f" "- 1 \<le> c" by auto
  with d show ?thesis by simp
qed

lemma pack_a_returns:
  assumes "- 1 \<le> count" and "0 \<le> didx"
  shows "\<exists>bs. pack_a v didx count flags = Inr bs"
proof -
  consider "count = 0" | "count = - 1" | "count \<noteq> 0" "count \<noteq> - 1" "count < int (length (RSTRING v))"
    | "count \<noteq> 0" "count \<noteq> - 1" "\<not> count < int (length (RSTRING v))"
    by blast
  then show ?thesis
  proof cases
    case 1
    then show ?thesis by (simp add: pack_a_def)
  next
    case 2
    with assms show ?thesis by (simp add: pack_a_def Let_def str_len_ensure_def)
  next
    case 3
    with assms show ?thesis by (simp add: pack_a_def Let_def str_len_ensure_def)
  next
    case 4
    with assms show ?thesis by (simp add: pack_a_def Let_def str_len_ensure_def)
  qed
qed

text \<open>
  C1, as the code has it. For a directive read at one of the characters \<open>A\<close>, \<open>a\<close>,
  \<open>Z\<close>, with whatever count and modifiers: if the loop over the array returns, it has
  consumed exactly one entry when one was left and none when the array was used up; and
  when an entry is left and is a String, the loop does return, with that one entry
  consumed and the bytes of pack_a appended. The count only goes into pack_a.
\<close>

theorem string_directive_consumes_one:
  assumes rt: "read_tmpl h tm = Inr (d, tm')"
    and ch: "tmpl_str tm ! tmpl_idx tm \<in> set ''AaZ''"
  shows "(\<forall>aidx' ridx' result'.
            pack_for h ary (d_dir d) (d_type d) (d_flags d) (d_count d) aidx ridx result
              = Inr (aidx', ridx', result')
            \<longrightarrow> aidx' = (if aidx < length ary then aidx + 1 else aidx))
         \<and> (aidx < length ary \<and> string_p (ary ! aidx) \<and> 0 \<le> ridx \<longrightarrow>
              (\<exists>bs. pack_a (ary ! aidx) ridx (d_count d) (d_flags d) = Inr bs
                 \<and> pack_for h ary (d_dir d) (d_type d) (d_flags d) (d_count d) aidx ridx result
                     = Inr (aidx + 1, ridx + int (length bs), result @ bs)))"
proof -
  from read_tmpl_string [OF rt ch] have dir: "d_dir d = PACK_DIR_STR"
    and ty: "d_type d = PACK_TYPE_STRING" and w: "PACK_FLAG_WIDTH \<in> d_flags d"
    and c: "- 1 \<le> d_count d"
    by simp_all
  have one: "\<forall>aidx' ridx' result'.
            pack_for h ary (d_dir d) (d_type d) (d_flags d) (d_count d) aidx ridx result
              = Inr (aidx', ridx', result')
            \<longrightarrow> aidx' = (if aidx < length ary then aidx + 1 else aidx)"
    by (subst pack_for.simps) (auto simp: dir w split: sum.splits)
  have ret: "\<exists>bs. pack_a (ary ! aidx) ridx (d_count d) (d_flags d) = Inr bs
                 \<and> pack_for h ary (d_dir d) (d_type d) (d_flags d) (d_count d) aidx ridx result
                     = Inr (aidx + 1, ridx + int (length bs), result @ bs)"
    if a: "aidx < length ary" and s: "string_p (ary ! aidx)" and r: "0 \<le> ridx"
  proof -
    from pack_a_returns [OF c r] obtain bs
      where pa: "pack_a (ary ! aidx) ridx (d_count d) (d_flags d) = Inr bs"
      by blast
    have co: "pack_coerce h PACK_TYPE_STRING (ary ! aidx) = Inr (ary ! aidx)"
      using s by (simp add: pack_coerce_def)
    have "pack_for h ary (d_dir d) (d_type d) (d_flags d) (d_count d) aidx ridx result
                     = Inr (aidx + 1, ridx + int (length bs), result @ bs)"
      by (subst pack_for.simps) (simp add: a dir ty w co pack_switch_def pa)
    with pa show ?thesis by blast
  qed
  from one ret show ?thesis by blast
qed

theorem string_directive_consumes_one_witness:
  "\<exists>bs. pack_a (VString [0x61, 0x62]) 0 5 {PACK_FLAG_WIDTH, PACK_FLAG_COUNT2, PACK_FLAG_LITTLEENDIAN} = Inr bs
      \<and> pack_for host64 [VString [0x61, 0x62], VString [0x63]] PACK_DIR_STR PACK_TYPE_STRING
            {PACK_FLAG_WIDTH, PACK_FLAG_COUNT2, PACK_FLAG_LITTLEENDIAN} 5 0 0 []
          = Inr (1, 0 + int (length bs), [] @ bs)"
proof -
  have rt: "read_tmpl host64 \<lparr>tmpl_str = ''A5'', tmpl_idx = 0\<rparr>
      = Inr (\<lparr>d_dir = PACK_DIR_STR, d_type = PACK_TYPE_STRING, d_size = 0, d_count = 5,
               d_flags = {PACK_FLAG_WIDTH, PACK_FLAG_COUNT2, PACK_FLAG_LITTLEENDIAN}\<rparr>,
             \<lparr>tmpl_str = ''A5'', tmpl_idx = 2\<rparr>)"
    by (simp add: tmpl_eval host64_def insert_commute)
  from string_directive_consumes_one [OF rt, of "[VString [0x61, 0x62], VString [0x63]]" 0 0 "[]"]
  show ?thesis by simp
qed

text \<open>
  C1 as stated fails. With no entry left, \<open>A\<close> consumes none: \<open>[].pack("A")\<close> is the
  empty string. And the \<open>break\<close> that makes a directive consume one entry is taken for
  PACK_DIR_STR only: \<open>H2\<close> on two strings consumes both (the second with count 1), and
  \<open>m\<close> consumes every entry that is left (all but the first with count 0).
\<close>

theorem string_directive_consumption_fails:
  "pack_for host64 [] PACK_DIR_STR PACK_TYPE_STRING
      {PACK_FLAG_WIDTH, PACK_FLAG_COUNT2, PACK_FLAG_LITTLEENDIAN} 1 0 0 [] = Inr (0, 0, [])
   \<and> mrb_pack_pack host64 [] ''A'' = Inr []
   \<and> pack_for host64 [VString [0x61, 0x62], VString [0x63, 0x64]] PACK_DIR_HEX PACK_TYPE_STRING
        {PACK_FLAG_COUNT2, PACK_FLAG_LITTLEENDIAN} 2 0 0 [] = Inr (2, 2, [0xab, 0xc0])
   \<and> mrb_pack_pack host64 [VString [0x61, 0x62], VString [0x63, 0x64]] ''H2'' = Inr [0xab, 0xc0]
   \<and> pack_for host64 [VString [0x61], VString [0x62]] PACK_DIR_BASE64 PACK_TYPE_STRING
        {PACK_FLAG_WIDTH, PACK_FLAG_LITTLEENDIAN} 1 0 0 []
      = Inr (2, 9, [0x59, 0x51, 0x3d, 0x3d, 0x0a, 0x59, 0x67, 0x3d, 0x3d])"
  by (simp add: pack_for.simps mrb_pack_pack_def pack_while.simps tmpl_eval host64_def
      pack_coerce_def pack_switch_def pack_h_def pack_h_loop.simps hex2int_def
      str_len_ensure_def pack_m_def pack_m_loop.simps b64_def base64chars_def)

subsection \<open>The read cursor of unpack\<close>

lemma tmpl_switch_ok:
  assumes "tmpl_switch t = (dir, type, wd, flags)"
  shows "0 \<le> wd \<and> (dir = PACK_DIR_CHAR \<longrightarrow> wd = 1) \<and> (dir = PACK_DIR_SHORT \<longrightarrow> wd = 2)
     \<and> (dir = PACK_DIR_LONG \<longrightarrow> wd = 4) \<and> (dir = PACK_DIR_QUAD \<longrightarrow> wd = 8)
     \<and> (dir = PACK_DIR_FLOAT \<longrightarrow> wd = 4) \<and> (dir = PACK_DIR_DOUBLE \<longrightarrow> wd = 8)
     \<and> (dir = PACK_DIR_UTF8 \<longrightarrow> t = CHR ''U'')"
  using assms unfolding tmpl_switch_def by (simp split: if_splits)

lemma tmpl_alias_U: "tmpl_alias h t0 = Inr (CHR ''U'') \<Longrightarrow> t0 = CHR ''U''"
  by (simp add: tmpl_alias_def split: if_splits)

lemma read_tmpl_ok:
  assumes rt: "read_tmpl h tm = Inr (d, tm')" and ht: "has_tmpl tm"
  shows "directive_ok (tmpl_str tm) d"
proof -
  let ?t0 = "tmpl_str tm ! tmpl_idx tm"
  from rt obtain t where al: "tmpl_alias h ?t0 = Inr t"
    by (auto simp: read_tmpl_def Let_def split: sum.splits)
  obtain dir type wd F where sw: "tmpl_switch t = (dir, type, wd, F)"
    by (cases "tmpl_switch t") auto
  from rt obtain c f i where
    rs: "read_suffix (tmpl_str tm) (length (tmpl_str tm)) t 1 F (tmpl_idx tm + 1) = Inr (c, f, i)"
    and d: "d_dir d = dir" "d_size d = wd" "d_count d = c"
    by (auto simp: read_tmpl_def al sw Let_def split: sum.splits)
  from read_suffix_props [OF rs] have c: "- 1 \<le> c" by simp
  from ht have "?t0 \<in> set (tmpl_str tm)" by (simp add: has_tmpl_def)
  with tmpl_switch_ok [OF sw] tmpl_alias_U [of h ?t0] al c d show ?thesis
    by (auto simp: directive_ok_def)
qed

lemma unpack_x_bound:
  assumes "unpack_x slen ary count flags = Inr n" and "- 1 \<le> count"
  shows "n \<le> slen \<and> (0 \<le> n \<or> n = slen)"
  using assms by (auto simp: unpack_x_def split: if_splits)

lemma unpack_h_loop_bound:
  "unpack_h_loop a b sptr slen count dst = (slen', dst') \<Longrightarrow>
   slen' \<le> slen \<and> (0 \<le> slen' \<or> slen' = slen)"
proof (induction a b sptr slen count dst rule: unpack_h_loop.induct)
  case (1 a b sptr slen count dst)
  show ?case
  proof (cases "slen > 0 \<and> count > 0")
    case False
    with "1.prems" show ?thesis by (subst (asm) unpack_h_loop.simps) auto
  next
    case True
    show ?thesis
    proof (cases "count - 1 > 0")
      case c: True
      with True "1.prems" have
        "unpack_h_loop a b (drop 1 sptr) (slen - 1) (count - 1 - 1)
           ((dst @ [hexadecimal ! unat (drop_bit a (sptr ! 0) AND 0x0f)])
              @ [hexadecimal ! unat (drop_bit b (sptr ! 0) AND 0x0f)]) = (slen', dst')"
        by (subst (asm) unpack_h_loop.simps) (simp add: Let_def)
      from "1.IH"(1) [OF True refl refl refl refl c this] True show ?thesis by auto
    next
      case c: False
      with True "1.prems" have
        "unpack_h_loop a b (drop 1 sptr) (slen - 1) (count - 1)
           (dst @ [hexadecimal ! unat (drop_bit a (sptr ! 0) AND 0x0f)]) = (slen', dst')"
        by (subst (asm) unpack_h_loop.simps) (simp add: Let_def)
      from "1.IH"(2) [OF True refl refl refl refl c this] True show ?thesis by auto
    qed
  qed
qed

lemma unpack_h_bound:
  assumes "unpack_h h sptr slen ary count flags = Inr (n, ary')"
  shows "0 \<le> n \<and> (n \<le> slen \<or> n = 0)"
proof -
  from assms obtain a b c slen' dst where
    l: "unpack_h_loop a b sptr slen c [] = (slen', dst)" and n: "n = slen - slen'"
    by (auto simp: unpack_h_def Let_def split: prod.splits option.splits if_splits)
  from unpack_h_loop_bound [OF l] n show ?thesis by auto
qed

lemma memchr_bound: "memchr s c n = Some k \<Longrightarrow> int k < n"
  by (auto simp: memchr_def Let_def split: if_splits)

lemma unpack_a_bound:
  assumes "unpack_a sptr slen ary count flags = Inr (n, ary')" and "- 1 \<le> count"
  shows "n \<le> slen \<and> (0 \<le> n \<or> n = slen)"
  using assms
  by (auto simp: unpack_a_def Let_def split: if_splits option.splits prod.splits
           dest!: memchr_bound)

lemma unpack_m_loop_bound:
  "unpack_m_loop sptr padding dst = (sptr', dst') \<Longrightarrow> length sptr' \<le> length sptr"
proof (induction sptr padding dst rule: unpack_m_loop.induct)
  case (1 sptr padding dst)
  show ?case
  proof (cases "length sptr \<ge> 4")
    case False
    with "1.prems" show ?thesis by (subst (asm) unpack_m_loop.simps) auto
  next
    case True
    show ?thesis
    proof (cases "unpack_m_group 4 sptr padding []")
      case None
      with True "1.prems" show ?thesis by (subst (asm) unpack_m_loop.simps) auto
    next
      case (Some r)
      obtain ch s1 p1 where r: "r = (ch, s1, p1)" by (cases r) auto
      from unpack_m_group_length [OF Some [unfolded r]] have len: "length s1 \<le> length sptr"
        by simp
      show ?thesis
      proof (cases "p1 = 0")
        case False
        with True Some r "1.prems" have "sptr' = s1"
          by (subst (asm) unpack_m_loop.simps) (auto simp: Let_def split: if_splits)
        with len show ?thesis by simp
      next
        case p: True
        let ?l = "(push_bit 18 (ucast (ch ! 0)) + push_bit 12 (ucast (ch ! 1))
                       + push_bit 6 (ucast (ch ! 2)) + ucast (ch ! 3) :: 32 word)"
        from True Some r p "1.prems" have
          "unpack_m_loop s1 p1
              (dst @ [ucast (drop_bit 16 ?l AND 0xff), ucast (drop_bit 8 ?l AND 0xff),
                      ucast (?l AND 0xff)]) = (sptr', dst')"
          by (subst (asm) unpack_m_loop.simps) (simp add: Let_def)
        from "1.IH" [OF True Some r [symmetric] refl refl p this] len
        show ?thesis by simp
      qed
    qed
  qed
qed

lemma unpack_m_bound:
  assumes "unpack_m src slen ary flags = Inr (n, ary')" and "0 \<le> slen"
  shows "0 \<le> n \<and> n \<le> slen"
proof -
  obtain s' dst where l: "unpack_m_loop (take (nat slen) src) 0 [] = (s', dst)"
    by (cases "unpack_m_loop (take (nat slen) src) 0 []") auto
  with assms have n: "n = int (length (take (nat slen) src)) - int (length s')"
    by (simp add: unpack_m_def Let_def)
  from unpack_m_loop_bound [OF l] n assms(2) show ?thesis by auto
qed

lemma utf8_to_uv_bound:
  assumes "utf8_to_uv p lenp = Inr (uv, l)" and "0 < lenp"
  shows "1 \<le> l \<and> l \<le> lenp"
  using assms
  by (auto simp: utf8_to_uv_def Let_def split: if_splits sum.splits option.splits)

lemma unpack_utf8_bound:
  assumes "unpack_utf8 src slen ary flags = Inr (n, ary')" and "0 \<le> slen"
  shows "1 \<le> n \<and> n \<le> slen + 1"
proof (cases "slen = 0")
  case True
  with assms show ?thesis by (simp add: unpack_utf8_def)
next
  case False
  with assms obtain uv where "utf8_to_uv src slen = Inr (uv, n)"
    by (auto simp: unpack_utf8_def split: sum.splits)
  from utf8_to_uv_bound [OF this] False assms(2) show ?thesis by simp
qed

lemma unpack_switch_bound:
  assumes sw: "unpack_switch h (d_dir d) sptr slen result (d_flags d) = Inr (n, ary)"
    and ok: "directive_ok template d" and sz: "\<not> slen < d_size d"
  shows "0 \<le> n \<and> n \<le> slen + 1 \<and> (CHR ''U'' \<notin> set template \<longrightarrow> n \<le> slen)"
proof -
  from ok sz have s0: "0 \<le> slen" by (simp add: directive_ok_def)
  show ?thesis
  proof (cases "d_dir d")
    case PACK_DIR_CHAR
    with sw ok sz show ?thesis
      by (auto simp: unpack_switch_def unpack_c_def directive_ok_def split: if_splits)
  next
    case PACK_DIR_SHORT
    with sw ok sz show ?thesis
      by (auto simp: unpack_switch_def unpack_s_def directive_ok_def Let_def)
  next
    case PACK_DIR_LONG
    with sw ok sz show ?thesis
      by (auto simp: unpack_switch_def unpack_l_def directive_ok_def Let_def split: if_splits)
  next
    case PACK_DIR_QUAD
    with sw ok sz show ?thesis
      by (auto simp: unpack_switch_def unpack_q_def directive_ok_def Let_def split: if_splits)
  next
    case PACK_DIR_UTF8
    with sw have "unpack_utf8 sptr slen result (d_flags d) = Inr (n, ary)"
      by (simp add: unpack_switch_def)
    from unpack_utf8_bound [OF this s0] PACK_DIR_UTF8 ok show ?thesis
      by (auto simp: directive_ok_def)
  next
    case PACK_DIR_DOUBLE
    with sw ok sz show ?thesis
      by (auto simp: unpack_switch_def unpack_double_def directive_ok_def Let_def)
  next
    case PACK_DIR_FLOAT
    with sw ok sz show ?thesis
      by (auto simp: unpack_switch_def unpack_float_def directive_ok_def Let_def)
  next
    case PACK_DIR_BASE64
    with sw have "unpack_m sptr slen result (d_flags d) = Inr (n, ary)"
      by (simp add: unpack_switch_def)
    from unpack_m_bound [OF this s0] show ?thesis by simp
  qed (use sw in \<open>simp_all add: unpack_switch_def\<close>)
qed

lemma unpack_step_inv:
  assumes inv: "cursor_inv str template s"
    and st: "unpack_step h str single s = Inr (Running s')"
  shows "cursor_inv str template s'"
proof (cases "u_loop s")
  case None
  show ?thesis
  proof (cases "has_tmpl (u_tmpl s)")
    case False
    with None st show ?thesis by (simp add: unpack_step_def Let_def)
  next
    case ht: True
    from None ht st obtain d tm' where rt: "read_tmpl h (u_tmpl s) = Inr (d, tm')"
      by (auto simp: unpack_step_def Let_def split: sum.splits)
    from read_tmpl_idx [OF rt] inv have ts: "tmpl_str tm' = template"
      by (simp add: cursor_inv_def)
    from read_tmpl_ok [OF rt ht] inv have ok: "directive_ok template d"
      by (simp add: cursor_inv_def)
    then have cnt: "- 1 \<le> d_count d" by (simp add: directive_ok_def)
    let ?slen = "int (length str) - u_srcidx s"
    consider (inv) "d_dir d = PACK_DIR_INVALID"
      | (nul) "d_dir d = PACK_DIR_NUL"
      | (hex) "d_dir d = PACK_DIR_HEX" "PACK_FLAG_COUNT2 \<in> d_flags d"
      | (str) "d_dir d = PACK_DIR_STR" "PACK_FLAG_COUNT2 \<in> d_flags d"
      | (oth) "d_dir d \<noteq> PACK_DIR_INVALID" "d_dir d \<noteq> PACK_DIR_NUL" "d_dir d \<noteq> PACK_DIR_HEX"
          "d_dir d \<noteq> PACK_DIR_STR" "PACK_FLAG_COUNT2 \<in> d_flags d"
      | (loop) "d_dir d \<noteq> PACK_DIR_INVALID" "d_dir d \<noteq> PACK_DIR_NUL"
          "PACK_FLAG_COUNT2 \<notin> d_flags d"
      by blast
    then show ?thesis
    proof cases
      case inv
      with None ht rt st have "s' = s\<lparr>u_tmpl := tm'\<rparr>"
        by (simp add: unpack_step_def Let_def)
      with assms(1) ts None show ?thesis by (simp add: cursor_inv_def)
    next
      case nul
      with None ht rt st obtain n where
        x: "unpack_x ?slen (u_result s) (d_count d) (d_flags d) = Inr n"
        and s': "s' = s\<lparr>u_tmpl := tm', u_srcidx := u_srcidx s + n\<rparr>"
        by (auto simp: unpack_step_def Let_def split: sum.splits)
      from unpack_x_bound [OF x cnt] assms(1) ts None s' show ?thesis
        by (auto simp: cursor_inv_def)
    next
      case hex
      with None ht rt st obtain n ary where
        x: "unpack_h h (drop (nat (u_srcidx s)) str) ?slen (u_result s) (d_count d) (d_flags d)
              = Inr (n, ary)"
        and s': "s' = s\<lparr>u_tmpl := tm', u_srcidx := u_srcidx s + n, u_result := ary\<rparr>"
        by (auto simp: unpack_step_def Let_def split: sum.splits)
      from unpack_h_bound [OF x] assms(1) ts None s' show ?thesis
        by (auto simp: cursor_inv_def)
    next
      case str
      with None ht rt st obtain n ary where
        x: "unpack_a (drop (nat (u_srcidx s)) str) ?slen (u_result s) (d_count d) (d_flags d)
              = Inr (n, ary)"
        and s': "s' = s\<lparr>u_tmpl := tm', u_srcidx := u_srcidx s + n, u_result := ary\<rparr>"
        by (auto simp: unpack_step_def Let_def split: sum.splits)
      from unpack_a_bound [OF x cnt] assms(1) ts None s' show ?thesis
        by (auto simp: cursor_inv_def)
    next
      case oth
      with None ht rt st have "s' = s\<lparr>u_tmpl := tm'\<rparr>"
        by (cases "d_dir d") (simp_all add: unpack_step_def Let_def)
      with assms(1) ts None show ?thesis by (simp add: cursor_inv_def)
    next
      case loop
      with None ht rt st have "s' = s\<lparr>u_tmpl := tm', u_loop := Some d\<rparr>"
        by (simp add: unpack_step_def Let_def)
      with assms(1) ts ok show ?thesis by (simp add: cursor_inv_def)
    qed
  qed
next
  case (Some d)
  with inv have ok: "directive_ok template d" by (simp add: cursor_inv_def)
  let ?slen = "int (length str) - u_srcidx s"
  show ?thesis
  proof (cases "d_count d \<noteq> 0 \<and> \<not> ?slen < d_size d")
    case False
    with Some st have "\<not> single" and "u_srcidx s' = u_srcidx s" and "u_loop s' = None"
      and "u_tmpl s' = u_tmpl s"
      by (auto simp: unpack_step_def Let_def unpack_leave_def split: if_splits)
    with inv show ?thesis by (simp add: cursor_inv_def)
  next
    case True
    with Some st obtain n ary where
      sw: "unpack_switch h (d_dir d) (drop (nat (u_srcidx s)) str) ?slen (u_result s) (d_flags d)
             = Inr (n, ary)"
      and s': "s' = s\<lparr>u_srcidx := u_srcidx s + n, u_result := ary,
                u_loop := Some (d\<lparr>d_count := (if d_count d > 0 then d_count d - 1 else d_count d)\<rparr>)\<rparr>"
      by (auto simp: unpack_step_def Let_def split: sum.splits)
    from ok have ok': "directive_ok template
        (d\<lparr>d_count := (if d_count d > 0 then d_count d - 1 else d_count d)\<rparr>)"
      by (simp add: directive_ok_def)
    from True have sz: "\<not> ?slen < d_size d" by simp
    from unpack_switch_bound [OF sw ok sz] inv s' ok' show ?thesis
      by (auto simp: cursor_inv_def)
  qed
qed

lemma unpack_steps_inv:
  "cursor_inv str template s \<Longrightarrow> unpack_steps h str single n s = Inr (Running s') \<Longrightarrow>
   cursor_inv str template s'"
proof (induction n arbitrary: s)
  case 0
  then show ?case by simp
next
  case (Suc n)
  from Suc.prems(2) obtain s1 where st: "unpack_step h str single s = Inr (Running s1)"
    and rest: "unpack_steps h str single n s1 = Inr (Running s')"
    by (auto split: sum.splits unpack_step.splits)
  from Suc.IH [OF unpack_step_inv [OF Suc.prems(1) st] rest] show ?case .
qed

lemma unpack_steps_numeral:
  "unpack_steps h str single (numeral k) s =
     (case unpack_step h str single s of
        Inl e \<Rightarrow> Inl e
      | Inr (Returned r) \<Rightarrow> Inr (Returned r)
      | Inr (Running s') \<Rightarrow> unpack_steps h str single (pred_numeral k) s')"
  by (simp add: numeral_eq_Suc)

lemma cursor_inv_init: "cursor_inv str template (unpack_init template)"
  by (simp add: cursor_inv_def unpack_init_def)

text \<open>
  C7, as the code has it. In every state that an unpack run reaches, after any number
  of steps, the read offset is at least 0 and at most the length of the input plus one,
  and at most the length when the template has no \<open>U\<close>: only unpack_utf8, which reports
  one byte consumed on an empty remainder, puts it one past the end. And a step that
  calls a codec (those of the repetition loop, and unpack_x, unpack_h and unpack_a of
  the outer loop) moves the offset by exactly the count the codec returned.
\<close>

theorem unpack_cursor_bounds:
  assumes "unpack_steps h str single n (unpack_init template) = Inr (Running s)"
  shows "0 \<le> u_srcidx s \<and> u_srcidx s \<le> int (length str) + 1
     \<and> (CHR ''U'' \<notin> set template \<longrightarrow> u_srcidx s \<le> int (length str))
     \<and> (\<forall>d k ary. u_loop s = Some d \<and> d_count d \<noteq> 0
            \<and> \<not> int (length str) - u_srcidx s < d_size d
            \<and> unpack_switch h (d_dir d) (drop (nat (u_srcidx s)) str)
                  (int (length str) - u_srcidx s) (u_result s) (d_flags d) = Inr (k, ary)
          \<longrightarrow> (\<exists>s'. unpack_step h str single s = Inr (Running s')
                 \<and> u_srcidx s' = u_srcidx s + k \<and> u_result s' = ary))
     \<and> (\<forall>d tm' k. u_loop s = None \<and> has_tmpl (u_tmpl s)
            \<and> read_tmpl h (u_tmpl s) = Inr (d, tm') \<and> d_dir d = PACK_DIR_NUL
            \<and> unpack_x (int (length str) - u_srcidx s) (u_result s) (d_count d) (d_flags d)
                = Inr k
          \<longrightarrow> (\<exists>s'. unpack_step h str single s = Inr (Running s')
                 \<and> u_srcidx s' = u_srcidx s + k))
     \<and> (\<forall>d tm' k ary. u_loop s = None \<and> has_tmpl (u_tmpl s)
            \<and> read_tmpl h (u_tmpl s) = Inr (d, tm') \<and> PACK_FLAG_COUNT2 \<in> d_flags d
            \<and> (d_dir d = PACK_DIR_HEX
                  \<and> unpack_h h (drop (nat (u_srcidx s)) str) (int (length str) - u_srcidx s)
                       (u_result s) (d_count d) (d_flags d) = Inr (k, ary)
                \<or> d_dir d = PACK_DIR_STR
                  \<and> unpack_a (drop (nat (u_srcidx s)) str) (int (length str) - u_srcidx s)
                       (u_result s) (d_count d) (d_flags d) = Inr (k, ary))
          \<longrightarrow> (\<exists>s'. unpack_step h str single s = Inr (Running s')
                 \<and> u_srcidx s' = u_srcidx s + k \<and> u_result s' = ary))"
proof -
  from unpack_steps_inv [OF cursor_inv_init assms]
  have "cursor_inv str template s" .
  then have b: "0 \<le> u_srcidx s \<and> u_srcidx s \<le> int (length str) + 1
     \<and> (CHR ''U'' \<notin> set template \<longrightarrow> u_srcidx s \<le> int (length str))"
    by (simp add: cursor_inv_def)
  have c: "\<forall>d k ary. u_loop s = Some d \<and> d_count d \<noteq> 0
            \<and> \<not> int (length str) - u_srcidx s < d_size d
            \<and> unpack_switch h (d_dir d) (drop (nat (u_srcidx s)) str)
                  (int (length str) - u_srcidx s) (u_result s) (d_flags d) = Inr (k, ary)
          \<longrightarrow> (\<exists>s'. unpack_step h str single s = Inr (Running s')
                 \<and> u_srcidx s' = u_srcidx s + k \<and> u_result s' = ary)"
    by (auto simp: unpack_step_def Let_def)
  have x: "\<forall>d tm' k. u_loop s = None \<and> has_tmpl (u_tmpl s)
            \<and> read_tmpl h (u_tmpl s) = Inr (d, tm') \<and> d_dir d = PACK_DIR_NUL
            \<and> unpack_x (int (length str) - u_srcidx s) (u_result s) (d_count d) (d_flags d)
                = Inr k
          \<longrightarrow> (\<exists>s'. unpack_step h str single s = Inr (Running s')
                 \<and> u_srcidx s' = u_srcidx s + k)"
    by (auto simp: unpack_step_def Let_def)
  have y: "\<forall>d tm' k ary. u_loop s = None \<and> has_tmpl (u_tmpl s)
            \<and> read_tmpl h (u_tmpl s) = Inr (d, tm') \<and> PACK_FLAG_COUNT2 \<in> d_flags d
            \<and> (d_dir d = PACK_DIR_HEX
                  \<and> unpack_h h (drop (nat (u_srcidx s)) str) (int (length str) - u_srcidx s)
                       (u_result s) (d_count d) (d_flags d) = Inr (k, ary)
                \<or> d_dir d = PACK_DIR_STR
                  \<and> unpack_a (drop (nat (u_srcidx s)) str) (int (length str) - u_srcidx s)
                       (u_result s) (d_count d) (d_flags d) = Inr (k, ary))
          \<longrightarrow> (\<exists>s'. unpack_step h str single s = Inr (Running s')
                 \<and> u_srcidx s' = u_srcidx s + k \<and> u_result s' = ary)"
    by (auto simp: unpack_step_def Let_def)
  show ?thesis by (intro conjI) (use b in simp, use b in simp, use b in simp, rule c, rule x, rule y)
qed

theorem unpack_cursor_bounds_witness:
  "unpack_steps host64 [0x01, 0x02, 0x03] False 2 (unpack_init ''S2'')
     = Inr (Running \<lparr>u_tmpl = \<lparr>tmpl_str = ''S2'', tmpl_idx = 2\<rparr>, u_srcidx = 2,
              u_result = [VFixnum 513],
              u_loop = Some \<lparr>d_dir = PACK_DIR_SHORT, d_type = PACK_TYPE_INTEGER, d_size = 2,
                             d_count = 1, d_flags = {PACK_FLAG_LITTLEENDIAN}\<rparr>\<rparr>)
   \<and> (0::int) \<le> 2 \<and> (2::int) \<le> int (length [0x01, 0x02, 0x03 :: byte]) + 1
   \<and> (2::int) \<le> int (length [0x01, 0x02, 0x03 :: byte])"
proof -
  have st: "unpack_steps host64 [0x01, 0x02, 0x03] False 2 (unpack_init ''S2'')
     = Inr (Running \<lparr>u_tmpl = \<lparr>tmpl_str = ''S2'', tmpl_idx = 2\<rparr>, u_srcidx = 2,
              u_result = [VFixnum 513],
              u_loop = Some \<lparr>d_dir = PACK_DIR_SHORT, d_type = PACK_TYPE_INTEGER, d_size = 2,
                             d_count = 1, d_flags = {PACK_FLAG_LITTLEENDIAN}\<rparr>\<rparr>)"
    by (simp add: unpack_steps_numeral unpack_eval tmpl_eval host64_def unpack_s_def)
  from unpack_cursor_bounds [OF st] st show ?thesis by simp
qed

text \<open>
  C7 as stated fails: on the empty string, \<open>U\<close> leaves the read offset at 1, beyond the
  length 0 of the input.
\<close>

theorem unpack_utf8_past_end:
  "unpack_steps host64 [] False 2 (unpack_init ''U'')
     = Inr (Running \<lparr>u_tmpl = \<lparr>tmpl_str = ''U'', tmpl_idx = 1\<rparr>, u_srcidx = 1, u_result = [],
              u_loop = Some \<lparr>d_dir = PACK_DIR_UTF8, d_type = PACK_TYPE_INTEGER, d_size = 0,
                             d_count = 0, d_flags = {PACK_FLAG_LITTLEENDIAN}\<rparr>\<rparr>)
   \<and> \<not> (1 \<le> int (length ([] :: byte list)))"
  by (simp add: unpack_steps_numeral unpack_eval tmpl_eval host64_def unpack_utf8_def)

subsection \<open>Running out of source bytes\<close>

lemma fixed_width_cases:
  assumes "fixed_width_dir dir"
  obtains "dir = PACK_DIR_CHAR" | "dir = PACK_DIR_SHORT" | "dir = PACK_DIR_LONG"
    | "dir = PACK_DIR_QUAD" | "dir = PACK_DIR_FLOAT" | "dir = PACK_DIR_DOUBLE"
  using assms by (auto simp: fixed_width_dir_def)

lemma unpack_switch_push:
  assumes "fixed_width_dir dir"
  shows "unpack_switch h dir bs slen ary flags =
     (case unpack_value h dir flags bs of
        Inl e \<Rightarrow> Inl e
      | Inr v \<Rightarrow> Inr (int (dir_width dir), ary @ [v]))"
  using assms
proof (cases rule: fixed_width_cases)
  case 1
  then show ?thesis
    by (simp add: unpack_value_def unpack_switch_def dir_width_def unpack_c_def)
next
  case 2
  then show ?thesis
    by (simp add: unpack_value_def unpack_switch_def dir_width_def unpack_s_def Let_def)
next
  case 3
  then show ?thesis
    by (simp add: unpack_value_def unpack_switch_def dir_width_def unpack_l_def Let_def)
next
  case 4
  then show ?thesis
    by (simp add: unpack_value_def unpack_switch_def dir_width_def unpack_q_def Let_def)
next
  case 5
  then show ?thesis
    by (simp add: unpack_value_def unpack_switch_def dir_width_def unpack_float_def Let_def)
next
  case 6
  then show ?thesis
    by (simp add: unpack_value_def unpack_switch_def dir_width_def unpack_double_def Let_def)
qed

lemma dir_width_pos: "fixed_width_dir dir \<Longrightarrow> 0 < dir_width dir"
  by (auto simp: fixed_width_dir_def dir_width_def)

lemma unpack_values_length:
  "unpack_values h dir flags bs k = Inr vs \<Longrightarrow> length vs = k"
  by (induction k arbitrary: bs vs) (auto split: sum.splits)

lemma unpack_value_not_nil:
  assumes "fixed_width_dir dir" and "unpack_value h dir flags bs = Inr v"
  shows "v \<noteq> VNil"
  using assms(1)
proof (cases rule: fixed_width_cases)
  case 1
  with assms(2) show ?thesis
    by (auto simp: unpack_value_def unpack_switch_def unpack_c_def split: if_splits)
next
  case 2
  with assms(2) show ?thesis
    by (auto simp: unpack_value_def unpack_switch_def unpack_s_def Let_def split: if_splits)
next
  case 3
  with assms(2) show ?thesis
    by (auto simp: unpack_value_def unpack_switch_def unpack_l_def Let_def split: if_splits)
next
  case 4
  with assms(2) show ?thesis
    by (auto simp: unpack_value_def unpack_switch_def unpack_q_def Let_def split: if_splits)
next
  case 5
  with assms(2) show ?thesis
    by (auto simp: unpack_value_def unpack_switch_def unpack_float_def Let_def split: if_splits)
next
  case 6
  with assms(2) show ?thesis
    by (auto simp: unpack_value_def unpack_switch_def unpack_double_def Let_def split: if_splits)
qed

lemma unpack_values_not_nil:
  "fixed_width_dir dir \<Longrightarrow> unpack_values h dir flags bs k = Inr vs \<Longrightarrow> VNil \<notin> set vs"
proof (induction k arbitrary: bs vs)
  case 0
  then show ?case by simp
next
  case (Suc k)
  from Suc.prems(2) obtain v vs' where v: "unpack_value h dir flags bs = Inr v"
    and vs': "unpack_values h dir flags (drop (dir_width dir) bs) k = Inr vs'"
    and vs: "vs = v # vs'"
    by (auto split: sum.splits)
  from unpack_value_not_nil [OF Suc.prems(1) v] Suc.IH [OF Suc.prems(1) vs'] vs
  show ?case by auto
qed

lemma unpack_steps_1: "unpack_steps h str single (Suc 0) s = unpack_step h str single s"
  by (auto split: sum.splits unpack_step.splits)

lemma unpack_loop_steps:
  assumes fixed: "fixed_width_dir dir"
  shows "0 \<le> i \<Longrightarrow>
    unpack_steps h str single (Suc (min n (length (drop (nat i) str) div dir_width dir)))
      \<lparr>u_tmpl = t, u_srcidx = i, u_result = r,
       u_loop = Some \<lparr>d_dir = dir, d_type = ty, d_size = int (dir_width dir), d_count = int n,
                      d_flags = F\<rparr>\<rparr>
    = (case unpack_values h dir F (drop (nat i) str)
              (min n (length (drop (nat i) str) div dir_width dir)) of
         Inl e \<Rightarrow> Inl e
       | Inr vs \<Rightarrow>
           Inr (unpack_leave single
             \<lparr>u_tmpl = t,
              u_srcidx = i + int (min n (length (drop (nat i) str) div dir_width dir)
                                  * dir_width dir),
              u_result = r @ vs @ replicate
                 (n - min n (length (drop (nat i) str) div dir_width dir)) VNil,
              u_loop = None\<rparr>))"
proof (induction n arbitrary: i r)
  case 0
  show ?case
    unfolding min_0L unpack_steps_1
    by (simp add: unpack_step_def unpack_leave_def)
next
  case (Suc m)
  let ?w = "dir_width dir"
  let ?rem = "drop (nat i) str"
  from dir_width_pos [OF fixed] have wp: "0 < ?w" .
  show ?case
  proof (cases "length ?rem < ?w")
    case True
    then have k: "min (Suc m) (length ?rem div ?w) = 0" by simp
    from True Suc.prems have short: "int (length str) - i < int ?w" by simp
    have n1: "nat (1 + int m) = Suc m" by simp
    show ?thesis
      unfolding k unpack_steps_1 using short
      by (simp add: unpack_step_def unpack_leave_def n1)
  next
    case False
    then have ge: "?w \<le> length ?rem" by simp
    let ?i' = "i + int ?w"
    let ?rem' = "drop (nat ?i') str"
    from Suc.prems have i': "0 \<le> ?i'" by simp
    from Suc.prems have rem': "?rem' = drop ?w ?rem"
      by (simp add: nat_add_distrib add.commute)
    have "length ?rem' = length ?rem - ?w" by (simp add: rem')
    with ge wp have dv: "length ?rem div ?w = Suc (length ?rem' div ?w)"
      by (simp only: le_div_geq)
    have k: "min (Suc m) (length ?rem div ?w) = Suc (min m (length ?rem' div ?w))"
      by (simp only: dv min_Suc_Suc)
    from False Suc.prems wp have long: "\<not> int (length str) - i < int ?w" by simp
    note sw = unpack_switch_push [OF fixed, of h ?rem "int (length str) - i" r F]
    show ?thesis
    proof (cases "unpack_value h dir F ?rem")
      case (Inl e)
      with long sw show ?thesis
        unfolding k by (simp add: unpack_step_def)
    next
      case (Inr v)
      have step: "unpack_step h str single
          \<lparr>u_tmpl = t, u_srcidx = i, u_result = r,
           u_loop = Some \<lparr>d_dir = dir, d_type = ty, d_size = int ?w, d_count = int (Suc m),
                          d_flags = F\<rparr>\<rparr>
        = Inr (Running \<lparr>u_tmpl = t, u_srcidx = ?i', u_result = r @ [v],
           u_loop = Some \<lparr>d_dir = dir, d_type = ty, d_size = int ?w, d_count = int m,
                          d_flags = F\<rparr>\<rparr>)"
        using long sw Inr by (simp add: unpack_step_def)
      define k' where "k' = min m (length ?rem' div ?w)"
      have uv: "unpack_values h dir F ?rem (Suc k') =
          (case unpack_values h dir F ?rem' k' of Inl e \<Rightarrow> Inl e | Inr vs \<Rightarrow> Inr (v # vs))"
        by (simp only: unpack_values.simps Inr sum.case rem')
      have "unpack_steps h str single (Suc (Suc k'))
          \<lparr>u_tmpl = t, u_srcidx = i, u_result = r,
           u_loop = Some \<lparr>d_dir = dir, d_type = ty, d_size = int ?w, d_count = int (Suc m),
                          d_flags = F\<rparr>\<rparr>
        = unpack_steps h str single (Suc k')
          \<lparr>u_tmpl = t, u_srcidx = ?i', u_result = r @ [v],
           u_loop = Some \<lparr>d_dir = dir, d_type = ty, d_size = int ?w, d_count = int m,
                          d_flags = F\<rparr>\<rparr>"
        by (simp only: unpack_steps.simps(2) [of _ _ _ "Suc k'"] step sum.case unpack_step.case)
      also have "\<dots> = (case unpack_values h dir F ?rem' k' of
           Inl e \<Rightarrow> Inl e
         | Inr vs \<Rightarrow>
             Inr (unpack_leave single
               \<lparr>u_tmpl = t, u_srcidx = ?i' + int (k' * ?w),
                u_result = (r @ [v]) @ vs @ replicate (m - k') VNil, u_loop = None\<rparr>))"
        unfolding k'_def by (rule Suc.IH [OF i'])
      also have "\<dots> = (case unpack_values h dir F ?rem (Suc k') of
           Inl e \<Rightarrow> Inl e
         | Inr vs \<Rightarrow>
             Inr (unpack_leave single
               \<lparr>u_tmpl = t, u_srcidx = i + int (Suc k' * ?w),
                u_result = r @ vs @ replicate (Suc m - Suc k') VNil, u_loop = None\<rparr>))"
        unfolding uv
        by (cases "unpack_values h dir F ?rem' k'") (simp_all add: algebra_simps)
      finally show ?thesis unfolding k k'_def .
    qed
  qed
qed


lemma read_suffix_flags:
  "read_suffix tptr tlen t count flags idx = Inr (count', flags', idx') \<Longrightarrow>
   flags' \<subseteq> flags \<union> {PACK_FLAG_s, PACK_FLAG_LT, PACK_FLAG_GT}"
proof (induction tptr tlen t count flags idx rule: read_suffix.induct)
  case (1 tptr tlen t count flags idx)
  note IH = "1.IH" and prems = "1.prems"(1)
  show ?case
  proof (cases "idx < tlen")
    case False
    with prems show ?thesis by (subst (asm) read_suffix.simps) auto
  next
    case lt: True
    let ?ch = "tptr ! idx"
    show ?thesis
    proof (cases "isdigit ?ch")
      case True
      with prems lt obtain c i where
        rc: "read_count tptr tlen (int (of_char ?ch) - 48) (idx + 1) = Inr (c, i)"
        and rs: "read_suffix tptr tlen t c flags i = Inr (count', flags', idx')"
        by (subst (asm) read_suffix.simps)
           (auto simp: Let_def split: sum.splits)
      from IH(1) [OF lt refl True rc refl rs] show ?thesis .
    next
      case nd: False
      show ?thesis
      proof (cases "?ch = CHR ''*''")
        case True
        with prems lt nd have "read_suffix tptr tlen t (- 1) flags (idx + 1) = Inr (count', flags', idx')"
          by (subst (asm) read_suffix.simps) (simp add: Let_def)
        from IH(2) [OF lt refl nd True this] show ?thesis by simp
      next
        case ns: False
        show ?thesis
        proof (cases "?ch = CHR ''_'' \<or> ?ch = CHR ''!'' \<or> ?ch = CHR ''<'' \<or> ?ch = CHR ''>''")
          case False
          with prems lt nd ns show ?thesis
            by (subst (asm) read_suffix.simps) (auto simp: Let_def)
        next
          case md: True
          from prems lt nd ns md have sc: "\<not> \<not> strchr ''sSiIlLqQ'' t"
            by (subst (asm) read_suffix.simps) (auto simp: Let_def split: if_splits)
          show ?thesis
          proof (cases "?ch = CHR ''_'' \<or> ?ch = CHR ''!''")
            case True
            with prems lt nd ns md sc
            have "read_suffix tptr tlen t count (insert PACK_FLAG_s flags) (idx + 1)
                    = Inr (count', flags', idx')"
              by (subst (asm) read_suffix.simps) (simp add: Let_def)
            from IH(3) [OF lt refl nd ns md sc True this]
            show ?thesis by auto
          next
            case nu: False
            show ?thesis
            proof (cases "?ch = CHR ''<''")
              case True
              with prems lt nd ns md sc nu
              have "read_suffix tptr tlen t count (insert PACK_FLAG_LT flags) (idx + 1)
                      = Inr (count', flags', idx')"
                by (subst (asm) read_suffix.simps) (simp add: Let_def)
              from IH(4) [OF lt refl nd ns md sc nu True this]
              show ?thesis by auto
            next
              case False
              with prems lt nd ns md sc nu
              have "read_suffix tptr tlen t count (insert PACK_FLAG_GT flags) (idx + 1)
                      = Inr (count', flags', idx')"
                by (subst (asm) read_suffix.simps) (simp add: Let_def)
              from IH(5) [OF lt refl nd ns md sc nu False this]
              show ?thesis by auto
            qed
          qed
        qed
      qed
    qed
  qed
qed

lemma tmpl_switch_fixed:
  assumes "tmpl_switch t = (dir, type, wd, flags)" and "fixed_width_dir dir"
  shows "wd = int (dir_width dir) \<and> PACK_FLAG_COUNT2 \<notin> flags"
  using assms unfolding tmpl_switch_def fixed_width_dir_def dir_width_def
  by (auto split: if_splits)

lemma read_tmpl_fixed:
  assumes rt: "read_tmpl h tm = Inr (d, tm')" and fixed: "fixed_width_dir (d_dir d)"
  shows "d_size d = int (dir_width (d_dir d)) \<and> PACK_FLAG_COUNT2 \<notin> d_flags d"
proof -
  let ?t0 = "tmpl_str tm ! tmpl_idx tm"
  from rt obtain t where al: "tmpl_alias h ?t0 = Inr t"
    by (auto simp: read_tmpl_def Let_def split: sum.splits)
  obtain dir type wd F where sw: "tmpl_switch t = (dir, type, wd, F)"
    by (cases "tmpl_switch t") auto
  from rt obtain c f i where
    rs: "read_suffix (tmpl_str tm) (length (tmpl_str tm)) t 1 F (tmpl_idx tm + 1) = Inr (c, f, i)"
    and d: "d_dir d = dir" "d_size d = wd"
      "d_flags d = (if PACK_FLAG_LT \<in> f \<or> (PACK_FLAG_GT \<notin> f \<and> littleendian h)
                    then insert PACK_FLAG_LITTLEENDIAN f else f)"
    by (auto simp: read_tmpl_def al sw Let_def split: sum.splits)
  from fixed d have "fixed_width_dir dir" by simp
  from tmpl_switch_fixed [OF sw this] have wd: "wd = int (dir_width dir)"
    and F: "PACK_FLAG_COUNT2 \<notin> F" by simp_all
  from read_suffix_flags [OF rs] F have "PACK_FLAG_COUNT2 \<notin> f" by auto
  with wd d show ?thesis by simp
qed

lemma unpack_run_steps_running:
  "unpack_steps h str single n s = Inr (Running s') \<Longrightarrow>
   unpack_run h str single s = unpack_run h str single s'"
proof (induction n arbitrary: s)
  case 0
  then show ?case by simp
next
  case (Suc n)
  then show ?case
    by (subst unpack_run.simps) (auto split: sum.splits unpack_step.splits)
qed


text \<open>
  C4. Take a state at the test of the outer loop where read_tmpl reads a fixed-width
  integer or float directive \<open>d\<close> with an explicit count \<open>n\<close> (a count that is not
  \<open>*\<close>), and let \<open>w\<close> be the width of its kind. Then \<open>d_size d\<close> is \<open>w\<close>, and with
  \<open>k\<close> the smaller of \<open>n\<close> and the number of whole chunks of \<open>w\<close> bytes that are left,
  the engine decodes \<open>k\<close> repetitions and, in \<open>k + 2\<close> steps, either has raised the
  error of a codec or has left the directive with the read cursor \<open>k * w\<close> bytes further
  on and the result extended by the \<open>k\<close> decoded values, none of them nil, and by
  \<open>n - k\<close> nils: one for each repetition still requested when fewer than \<open>w\<close> bytes
  remained. No error comes from the missing bytes. When the directive is the last of the
  template the run returns exactly that array. And \<open>"\x01".unpack("S")\<close> is \<open>[nil]\<close> on
  every host.
\<close>

theorem unpack_short_source:
  assumes lp: "u_loop s = None" and ht: "has_tmpl (u_tmpl s)"
    and rt: "read_tmpl h (u_tmpl s) = Inr (d, t')"
    and fixed: "fixed_width_dir (d_dir d)"
    and cnt: "0 \<le> d_count d"
    and idx: "0 \<le> u_srcidx s"
  shows "d_size d = int (dir_width (d_dir d))
     \<and> (let rem = drop (nat (u_srcidx s)) str; w = dir_width (d_dir d); n = nat (d_count d);
             k = min n (length rem div w)
         in unpack_steps h str single (k + 2) s =
              (case unpack_values h (d_dir d) (d_flags d) rem k of
                 Inl e \<Rightarrow> Inl e
               | Inr vs \<Rightarrow>
                   Inr (unpack_leave single
                          (s\<lparr>u_tmpl := t', u_srcidx := u_srcidx s + int (k * w),
                             u_result := u_result s @ vs @ replicate (n - k) VNil\<rparr>)))
            \<and> (case unpack_values h (d_dir d) (d_flags d) rem k of
                  Inl e \<Rightarrow> True
                | Inr vs \<Rightarrow> length vs = k \<and> VNil \<notin> set vs)
            \<and> (\<not> has_tmpl t' \<longrightarrow>
                 unpack_run h str False s =
                   Some (case unpack_values h (d_dir d) (d_flags d) rem k of
                           Inl e \<Rightarrow> Inl e
                         | Inr vs \<Rightarrow>
                             Inr (Unpacked_Array
                                    (u_result s @ vs @ replicate (n - k) VNil)))))
     \<and> mrb_pack_unpack h [0x01] ''S'' = Some (Inr (Unpacked_Array [VNil]))"
proof -
  obtain dir ty sz c F where d: "d = \<lparr>d_dir = dir, d_type = ty, d_size = sz, d_count = c,
      d_flags = F\<rparr>"
    by (cases d) auto
  obtain t i r where s: "s = \<lparr>u_tmpl = t, u_srcidx = i, u_result = r, u_loop = None\<rparr>"
    using lp by (cases s) auto
  from fixed d have fx: "fixed_width_dir dir" by simp
  from read_tmpl_fixed [OF rt fixed] d have sz: "sz = int (dir_width dir)"
    and c2: "PACK_FLAG_COUNT2 \<notin> F" by simp_all
  define n where "n = nat c"
  from cnt d have c: "c = int n" by (simp add: n_def)
  from idx s have i: "0 \<le> i" by simp
  let ?rem = "drop (nat i) str"
  let ?w = "dir_width dir"
  define k where "k = min n (length ?rem div ?w)"
  from fx have nd: "dir \<noteq> PACK_DIR_INVALID" "dir \<noteq> PACK_DIR_NUL"
    by (auto simp: fixed_width_dir_def)
  let ?s1 = "\<lparr>u_tmpl = t', u_srcidx = i, u_result = r,
       u_loop = Some \<lparr>d_dir = dir, d_type = ty, d_size = int ?w, d_count = int n,
                      d_flags = F\<rparr>\<rparr>"
  have step: "unpack_step h str sg s = Inr (Running ?s1)" for sg
    using ht rt nd c2 by (simp add: unpack_step_def s d sz c)
  have steps: "unpack_steps h str sg (k + 2) s =
      (case unpack_values h dir F ?rem k of
         Inl e \<Rightarrow> Inl e
       | Inr vs \<Rightarrow>
           Inr (unpack_leave sg
             \<lparr>u_tmpl = t', u_srcidx = i + int (k * ?w),
              u_result = r @ vs @ replicate (n - k) VNil, u_loop = None\<rparr>))" for sg
  proof -
    have "unpack_steps h str sg (k + 2) s = unpack_steps h str sg (Suc k) ?s1"
      by (simp add: step)
    also have "\<dots> = (case unpack_values h dir F ?rem k of
         Inl e \<Rightarrow> Inl e
       | Inr vs \<Rightarrow>
           Inr (unpack_leave sg
             \<lparr>u_tmpl = t', u_srcidx = i + int (k * ?w),
              u_result = r @ vs @ replicate (n - k) VNil, u_loop = None\<rparr>))"
      unfolding k_def by (rule unpack_loop_steps [OF fx i])
    finally show ?thesis .
  qed
  have vals: "(case unpack_values h dir F ?rem k of
                  Inl e \<Rightarrow> True
                | Inr vs \<Rightarrow> length vs = k \<and> VNil \<notin> set vs)"
    using unpack_values_length [of h dir F ?rem k] unpack_values_not_nil [OF fx, of h F ?rem k]
    by (auto split: sum.splits)
  have run: "unpack_run h str False s =
       Some (case unpack_values h dir F ?rem k of
               Inl e \<Rightarrow> Inl e
             | Inr vs \<Rightarrow> Inr (Unpacked_Array (r @ vs @ replicate (n - k) VNil)))"
    if nt: "\<not> has_tmpl t'"
  proof (cases "unpack_values h dir F ?rem k")
    case (Inl e)
    with steps [of False] have "unpack_steps h str False (k + 2) s = Inl e" by simp
    from unpack_run_steps_error [OF this] Inl show ?thesis by simp
  next
    case (Inr vs)
    let ?s2 = "\<lparr>u_tmpl = t', u_srcidx = i + int (k * ?w),
              u_result = r @ vs @ replicate (n - k) VNil, u_loop = None\<rparr>"
    from Inr steps [of False] have "unpack_steps h str False (k + 2) s = Inr (Running ?s2)"
      by (simp add: unpack_leave_def)
    from unpack_run_steps_running [OF this]
    have "unpack_run h str False s = unpack_run h str False ?s2" .
    also have "\<dots> = Some (Inr (Unpacked_Array (r @ vs @ replicate (n - k) VNil)))"
      using nt by (subst unpack_run.simps) (simp add: unpack_step_def unpack_return_def)
    finally show ?thesis using Inr by simp
  qed
  have ex: "mrb_pack_unpack h [0x01] ''S'' = Some (Inr (Unpacked_Array [VNil]))"
    by (simp add: mrb_pack_unpack_def unpack_run.simps unpack_eval tmpl_eval)
  have us: "u_srcidx s = i" and ur: "u_result s = r" by (simp_all add: s)
  have dd: "d_dir d = dir" and df: "d_flags d = F" and dc: "nat (d_count d) = n"
    by (simp_all add: d n_def)
  have su: "s\<lparr>u_tmpl := t', u_srcidx := x, u_result := y\<rparr>
            = \<lparr>u_tmpl = t', u_srcidx = x, u_result = y, u_loop = None\<rparr>" for x y
    by (simp add: s)
  show ?thesis
    unfolding Let_def us ur dd df dc su k_def [symmetric]
  proof (intro conjI impI)
    show "d_size d = int (dir_width dir)" by (simp add: d sz)
    show "unpack_steps h str single (k + 2) s =
      (case unpack_values h dir F ?rem k of
         Inl e \<Rightarrow> Inl e
       | Inr vs \<Rightarrow>
           Inr (unpack_leave single
             \<lparr>u_tmpl = t', u_srcidx = i + int (k * ?w),
              u_result = r @ vs @ replicate (n - k) VNil, u_loop = None\<rparr>))"
      by (rule steps)
    show "case unpack_values h dir F ?rem k of
            Inl e \<Rightarrow> True
          | Inr vs \<Rightarrow> length vs = k \<and> VNil \<notin> set vs"
      by (rule vals)
    show "unpack_run h str False s =
       Some (case unpack_values h dir F ?rem k of
               Inl e \<Rightarrow> Inl e
             | Inr vs \<Rightarrow> Inr (Unpacked_Array (r @ vs @ replicate (n - k) VNil)))"
      if "\<not> has_tmpl t'"
      using that by (rule run)
    show "mrb_pack_unpack h [0x01] ''S'' = Some (Inr (Unpacked_Array [VNil]))"
      by (rule ex)
  qed
qed

theorem unpack_short_source_witness:
  "unpack_steps host64 [0x01, 0x02, 0x03] False 3 (unpack_init ''S3'')
     = Inr (Running \<lparr>u_tmpl = \<lparr>tmpl_str = ''S3'', tmpl_idx = 2\<rparr>, u_srcidx = 2,
                     u_result = [VFixnum 513, VNil, VNil], u_loop = None\<rparr>)
   \<and> mrb_pack_unpack host64 [0x01, 0x02, 0x03] ''S3''
       = Some (Inr (Unpacked_Array [VFixnum 513, VNil, VNil]))
   \<and> mrb_pack_unpack host64 [0x01] ''S'' = Some (Inr (Unpacked_Array [VNil]))"
proof -
  have rt: "read_tmpl host64 (u_tmpl (unpack_init ''S3''))
      = Inr (\<lparr>d_dir = PACK_DIR_SHORT, d_type = PACK_TYPE_INTEGER, d_size = 2, d_count = 3,
               d_flags = {PACK_FLAG_LITTLEENDIAN}\<rparr>, \<lparr>tmpl_str = ''S3'', tmpl_idx = 2\<rparr>)"
    by (simp add: unpack_init_def tmpl_eval host64_def int_wrap_def)
  have vals: "unpack_values host64 PACK_DIR_SHORT {PACK_FLAG_LITTLEENDIAN} [0x01, 0x02, 0x03]
      (Suc 0) = Inr [VFixnum 513]"
    by (simp add: unpack_value_def unpack_switch_def unpack_s_def)
  have "fixed_width_dir PACK_DIR_SHORT" by (simp add: fixed_width_dir_def)
  note th = unpack_short_source [OF _ _ rt _ _ _, of "[0x01, 0x02, 0x03]" False]
  have th2: "unpack_steps host64 [0x01, 0x02, 0x03] False 3 (unpack_init ''S3'')
     = Inr (Running \<lparr>u_tmpl = \<lparr>tmpl_str = ''S3'', tmpl_idx = 2\<rparr>, u_srcidx = 2,
                     u_result = [VFixnum 513, VNil, VNil], u_loop = None\<rparr>)
   \<and> unpack_run host64 [0x01, 0x02, 0x03] False (unpack_init ''S3'')
       = Some (Inr (Unpacked_Array [VFixnum 513, VNil, VNil]))
   \<and> mrb_pack_unpack host64 [0x01] ''S'' = Some (Inr (Unpacked_Array [VNil]))"
    using th
    by (simp add: unpack_init_def has_tmpl_def fixed_width_dir_def dir_width_def vals
        unpack_leave_def Let_def numeral_3_eq_3 del: unpack_steps.simps unpack_values.simps)
  then show ?thesis
    by (simp add: mrb_pack_unpack_def pack_unpack_def del: unpack_steps.simps)
qed

subsection \<open>Line wrapping of base64\<close>



















text \<open>An empty source packs to nothing, whatever the count.\<close>

lemma base64_empty: "pack_m (VString []) didx count flags = Inr []"
  by (simp add: pack_m_def)

subsection \<open>The float directives on the 64-bit host\<close>

text \<open>
  The conversions of host64 at work: 0.1 as a \<open>double\<close> is narrowed to the nearest
  \<open>float\<close>, which rounds its fraction up, and \<open>[0.1].pack("e")\<close> stores that
  \<open>float\<close> least significant byte first; unpacking widens it exactly.
\<close>

lemma d2f_tenth: "ieee_double_to_float 0x3FB999999999999A = 0x3DCCCCCD"
  by (simp add: ieee_double_to_float_def round_half_even_def Let_def drop_bit_eq_div
      flip: take_bit_eq_mask)

lemma f2d_tenth: "ieee_float_to_double 0x3DCCCCCD = 0x3FB99999A0000000"
  by (simp add: ieee_float_to_double_def Let_def drop_bit_eq_div flip: take_bit_eq_mask)

lemma float_tenth:
  "mrb_pack_pack host64 [VFloat 0x3FB999999999999A] ''e'' = Inr [0xcd, 0xcc, 0xcc, 0x3d]
   \<and> mrb_pack_unpack host64 [0xcd, 0xcc, 0xcc, 0x3d] ''e''
       = Some (Inr (Unpacked_Array [VFloat 0x3FB99999A0000000]))"
proof -
  have rt: "read_tmpl host64 \<lparr>tmpl_str = ''e'', tmpl_idx = 0\<rparr>
      = Inr (\<lparr>d_dir = PACK_DIR_FLOAT, d_type = PACK_TYPE_FLOAT, d_size = 4, d_count = 1,
               d_flags = {PACK_FLAG_LITTLEENDIAN, PACK_FLAG_SIGNED, PACK_FLAG_LT}\<rparr>,
             \<lparr>tmpl_str = ''e'', tmpl_idx = 1\<rparr>)"
    by (simp add: tmpl_eval host64_def insert_commute)
  have d2f: "double_to_float host64 0x3FB999999999999A = 0x3DCCCCCD"
    by (simp add: host64_def d2f_tenth)
  have f2d: "float_to_double host64 0x3DCCCCCD = 0x3FB99999A0000000"
    by (simp add: host64_def f2d_tenth)
  have bytes: "le_bytes (0x3DCCCCCD :: 32 word) 4 = [0xcd, 0xcc, 0xcc, 0x3d]"
    by (simp add: le_bytes_4 drop_bit_eq_div) 
  have word: "(le_word [0xcd, 0xcc, 0xcc, 0x3d] :: 32 word) = 0x3DCCCCCD"
    by (simp add: le_word_def push_bit_eq_mult)
  have p: "mrb_pack_pack host64 [VFloat 0x3FB999999999999A] ''e'' = Inr [0xcd, 0xcc, 0xcc, 0x3d]"
  proof (rule pack_single [OF rt])
    show "pack_coerce host64
            (d_type \<lparr>d_dir = PACK_DIR_FLOAT, d_type = PACK_TYPE_FLOAT, d_size = 4, d_count = 1,
               d_flags = {PACK_FLAG_LITTLEENDIAN, PACK_FLAG_SIGNED, PACK_FLAG_LT}\<rparr>)
            (VFloat 0x3FB999999999999A) = Inr (VFloat 0x3FB999999999999A)"
      by (simp add: pack_coerce_def)
  qed (simp_all add: pack_switch_def pack_float_def str_len_ensure_def d2f bytes)
  have u: "mrb_pack_unpack host64 [0xcd, 0xcc, 0xcc, 0x3d] ''e''
       = Some (Inr (Unpacked_Array [VFloat 0x3FB99999A0000000]))"
    by (rule unpack_single [OF rt, where n = 4])
       (simp_all add: unpack_switch_def unpack_float_def word f2d)
  from p u show ?thesis by simp
qed

end
